theory Spec2Isabelle
  imports Complex_Main
begin

section \<open>Data model\<close>

text \<open>
  The program (\<^verbatim>\<open>BCSThesis/Source/GRacC.py\<close>) keeps a circuit as a networkx
  \<^verbatim>\<open>Graph\<close> built by \<^verbatim>\<open>nx.from_pandas_adjacency\<close>: its nodes are the integers
  \<open>0 .. n-1\<close> in this order, and every node has a dictionary of neighbours that keeps
  insertion order: \<open>adj g ! u\<close> is the list of the neighbours of node \<open>u\<close>. The attribute dictionary of an edge is one object shared by both
  directions; it always has \<^verbatim>\<open>weight = 1\<close> (the adjacency entry), and it has the five
  circuit attributes once \<^verbatim>\<open>nx.set_edge_attributes\<close> has reached the edge.
  Python floats are modelled as reals, with exact arithmetic; Python exceptions are
  values of \<open>py_error\<close>.
\<close>

datatype py_error =
  IndexError | KeyError | TypeError | ValueError | LinAlgError | OverflowError | UnboundLocalError

record edge_att =
  resistor :: real
  battery :: real
  capacitor :: real
  self :: real
  suggested_dir :: "nat \<times> nat"

record graph =
  adj :: "nat list list"
  att :: "((nat \<times> nat) \<times> edge_att) list"

text \<open>
  \<open>att g\<close> holds the circuit attributes of the edges that have them, under the key of
  the undirected edge \<open>{u, v}\<close>:
\<close>

definition ekey :: "nat \<Rightarrow> nat \<Rightarrow> nat \<times> nat" where
  "ekey u v = (min u v, max u v)"

text \<open>\<^verbatim>\<open>u in G\<close> and \<^verbatim>\<open>v in G[u]\<close>.\<close>

definition has_edge :: "graph \<Rightarrow> nat \<Rightarrow> nat \<Rightarrow> bool" where
  "has_edge g u v = (u < length (adj g) \<and> v \<in> set (adj g ! u))"

text \<open>
  \<^verbatim>\<open>kg.edges()\<close>: for every node in order, every neighbour that is not an earlier node
  (the view's \<^verbatim>\<open>seen\<close> dictionary holds the nodes already iterated).
\<close>

definition edges :: "graph \<Rightarrow> (nat \<times> nat) list" where
  "edges g = concat (map (\<lambda>u. map (\<lambda>v. (u, v)) (filter (\<lambda>v. u \<le> v) (adj g ! u)))
                         [0..<length (adj g)])"

definition number_of_edges :: "graph \<Rightarrow> nat" where
  "number_of_edges g = length (edges g)"

text \<open>
  \<^verbatim>\<open>kg.get_edge_data(org,dst)[name]\<close> for one of the circuit attributes:
  \<^verbatim>\<open>get_edge_data\<close> returns \<^verbatim>\<open>None\<close> when there is no such edge (subscripting it is
  a TypeError), and the dictionary of an edge that \<^verbatim>\<open>set_edge_attributes\<close> never
  reached has no such key.
\<close>

definition get_edge_data :: "graph \<Rightarrow> nat \<Rightarrow> nat \<Rightarrow> py_error + edge_att" where
  "get_edge_data kg org dst =
     (if has_edge kg org dst
      then (case map_of (att kg) (ekey org dst) of None \<Rightarrow> Inl KeyError | Some a \<Rightarrow> Inr a)
      else Inl TypeError)"

section \<open>Parsing the circuit description\<close>

text \<open>
  \<^verbatim>\<open>circuit_parser\<close> reads a text file line by line. It is modelled from the point
  where the pieces of a line, \<^verbatim>\<open>omitnewlines.split(" ")\<close>, are handed to \<^verbatim>\<open>float\<close>: a
  line is the list of the outcomes, \<open>Some x\<close> for a piece that \<^verbatim>\<open>float\<close> reads as the
  number \<open>x\<close> and \<open>None\<close> for a piece on which \<^verbatim>\<open>float\<close> raises ValueError (a word, the
  empty piece of a blank line or of two spaces in a row). Python floats are reals here,
  so the pieces that \<^verbatim>\<open>float\<close> reads as an infinity or as not-a-number are outside the
  model. The first line gives \<^verbatim>\<open>nodesnumber\<close> and \<^verbatim>\<open>edgesnumber\<close>, every other line a
  branch \<open>xmat, ymat, resistor, battery, capacitor, self\<close>. The display string \<^verbatim>\<open>whole\<close>
  is left out, and the array \<^verbatim>\<open>np.zeros([nodesnumber,nodesnumber])\<close> is taken to fit in
  memory.
\<close>

type_synonym line = "real option list"

text \<open>\<^verbatim>\<open>[float(numeric_string) for numeric_string in arrstr]\<close>.\<close>

definition float_list :: "line \<Rightarrow> py_error + real list" where
  "float_list arrstr = (if None \<in> set arrstr then Inl ValueError else Inr (map the arrstr))"

text \<open>\<^verbatim>\<open>int(x)\<close> of a float: the fraction is cut off, towards zero.\<close>

definition py_int :: "real \<Rightarrow> int" where
  "py_int x = (if 0 \<le> x then \<lfloor>x\<rfloor> else \<lceil>x\<rceil>)"

text \<open>\<^verbatim>\<open>arrnum[k]\<close> on a Python list.\<close>

definition getitem :: "'a list \<Rightarrow> nat \<Rightarrow> py_error + 'a" where
  "getitem xs k = (if k < length xs then Inr (xs ! k) else Inl IndexError)"

text \<open>
  A Python integer as an index into a numpy axis of size \<open>n\<close>, on a machine of 64 bits.
  An integer that fits a signed machine integer is the index: a negative one counts from
  the end, and one outside \<open>[-n, n)\<close> is IndexError. An integer that does not fit is
  first made an array: one below \<open>2\<^sup>6\<^sup>4\<close> an array of unsigned integers, whose conversion
  to an index is OverflowError; any other an array of objects, which is no index at all,
  again IndexError.
\<close>

definition fits_long :: "int \<Rightarrow> bool" where
  "fits_long i \<longleftrightarrow> - (2 ^ 63) \<le> i \<and> i < 2 ^ 63"

definition np_index :: "nat \<Rightarrow> int \<Rightarrow> py_error + nat" where
  "np_index n i =
     (if fits_long i
      then (if 0 \<le> i \<and> i < int n then Inr (nat i)
            else if - int n \<le> i \<and> i < 0 then Inr (nat (int n + i))
            else Inl IndexError)
      else if 0 \<le> i \<and> i < 2 ^ 64 then Inl OverflowError
      else Inl IndexError)"

text \<open>\<^verbatim>\<open>kgam[xmat][ymat] = 1\<close> on an \<open>n \<times> n\<close> array.\<close>

definition set_kgam :: "nat \<Rightarrow> int list list \<Rightarrow> int \<Rightarrow> int \<Rightarrow> py_error + int list list" where
  "set_kgam n kgam xmat ymat =
     (case np_index n xmat of
        Inl e \<Rightarrow> Inl e
      | Inr x \<Rightarrow> (case np_index n ymat of
                   Inl e \<Rightarrow> Inl e
                 | Inr y \<Rightarrow> Inr (kgam[x := (kgam ! x)[y := 1]])))"

text \<open>A Python dictionary assignment \<^verbatim>\<open>d[k] = v\<close>: an old key keeps its place.\<close>

fun dict_set :: "'k \<Rightarrow> 'v \<Rightarrow> ('k \<times> 'v) list \<Rightarrow> ('k \<times> 'v) list" where
  "dict_set k v [] = [(k, v)]"
| "dict_set k v (p # ps) = (if fst p = k then (k, v) # ps else p # dict_set k v ps)"

type_synonym att_of_edge = "real \<times> real \<times> real \<times> real"

text \<open>
  The \<^verbatim>\<open>else\<close> branch of the loop, for a line after the first; the state is
  \<open>(kgam, kgedgatt)\<close>.
\<close>

definition parse_line :: "nat \<Rightarrow> real list \<Rightarrow>
    int list list \<times> ((int \<times> int) \<times> att_of_edge) list \<Rightarrow>
    py_error + (int list list \<times> ((int \<times> int) \<times> att_of_edge) list)" where
  "parse_line n arrnum st =
     (case getitem arrnum 0 of Inl e \<Rightarrow> Inl e | Inr a0 \<Rightarrow>
      case getitem arrnum 1 of Inl e \<Rightarrow> Inl e | Inr a1 \<Rightarrow>
      let xmat = py_int a0; ymat = py_int a1
      in case set_kgam n (fst st) xmat ymat of Inl e \<Rightarrow> Inl e | Inr kgam' \<Rightarrow>
         case getitem arrnum 2 of Inl e \<Rightarrow> Inl e | Inr r \<Rightarrow>
         case getitem arrnum 3 of Inl e \<Rightarrow> Inl e | Inr b \<Rightarrow>
         case getitem arrnum 4 of Inl e \<Rightarrow> Inl e | Inr c \<Rightarrow>
         case getitem arrnum 5 of Inl e \<Rightarrow> Inl e | Inr s \<Rightarrow>
         Inr (kgam', dict_set (xmat, ymat) (r, b, c, s) (snd st)))"

text \<open>The loop over the lines after the first.\<close>

fun parse_lines :: "nat \<Rightarrow> line list \<Rightarrow> int list list \<Rightarrow>
    ((int \<times> int) \<times> att_of_edge) list \<Rightarrow>
    py_error + (int list list \<times> ((int \<times> int) \<times> att_of_edge) list)" where
  "parse_lines n [] kgam kgedgatt = Inr (kgam, kgedgatt)"
| "parse_lines n (l # ls) kgam kgedgatt =
     (case float_list l of
        Inl e \<Rightarrow> Inl e
      | Inr arrnum \<Rightarrow>
          (case parse_line n arrnum (kgam, kgedgatt) of
             Inl e \<Rightarrow> Inl e
           | Inr st \<Rightarrow> parse_lines n ls (fst st) (snd st)))"

text \<open>
  \<^verbatim>\<open>G.add_edge(u, v)\<close> on the adjacency: \<open>v\<close> becomes the last neighbour of \<open>u\<close> unless it
  is one already, and \<open>u\<close> of \<open>v\<close>.
\<close>

definition insert_last :: "nat \<Rightarrow> nat list \<Rightarrow> nat list" where
  "insert_last v ns = (if v \<in> set ns then ns else ns @ [v])"

definition add_edge :: "nat \<times> nat \<Rightarrow> nat list list \<Rightarrow> nat list list" where
  "add_edge e a = (let a1 = a[fst e := insert_last (snd e) (a ! fst e)]
                   in a1[snd e := insert_last (fst e) (a1 ! snd e)])"

text \<open>\<^verbatim>\<open>zip(*A.nonzero())\<close>: the positions of the nonzero entries, row by row.\<close>

definition nonzero :: "int list list \<Rightarrow> (nat \<times> nat) list" where
  "nonzero m = concat (map (\<lambda>i. map (\<lambda>j. (i, j)) (filter (\<lambda>j. m ! i ! j \<noteq> 0) [0..<length (m ! i)]))
                           [0..<length m])"

text \<open>
  \<^verbatim>\<open>nx.from_pandas_adjacency(pd.DataFrame(am))\<close> on a square array: the nodes
  \<open>0 .. n-1\<close>, one edge for every nonzero entry, added row by row.
\<close>

definition from_pandas_adjacency :: "int list list \<Rightarrow> graph" where
  "from_pandas_adjacency am =
     \<lparr>adj = fold add_edge (nonzero am) (replicate (length am) []),
      att = []\<rparr>"

text \<open>
  \<^verbatim>\<open>nx.set_edge_attributes(kg, kgedgatt)\<close>: for every key \<open>(u, v)\<close> in dictionary order,
  \<^verbatim>\<open>G[u][v].update(d)\<close>, skipped when that raises KeyError (no such node or edge).
  The value stored has \<^verbatim>\<open>suggested_dir = Coord\<close>, which is the key itself.
\<close>

fun set_edge_attributes :: "graph \<Rightarrow> ((int \<times> int) \<times> att_of_edge) list \<Rightarrow> graph" where
  "set_edge_attributes g [] = g"
| "set_edge_attributes g (((u, v), (r, b, c, s)) # values) =
     (if 0 \<le> u \<and> 0 \<le> v \<and> has_edge g (nat u) (nat v)
      then set_edge_attributes
             (g\<lparr>att := dict_set (ekey (nat u) (nat v))
                  \<lparr>resistor = r, battery = b, capacitor = c, self = s,
                   suggested_dir = (nat u, nat v)\<rparr> (att g)\<rparr>) values
      else set_edge_attributes g values)"

text \<open>
  \<^verbatim>\<open>circuit_parser\<close>. A file without any line leaves \<^verbatim>\<open>kgam\<close> unassigned, which is
  UnboundLocalError at \<^verbatim>\<open>pd.DataFrame(kgam)\<close>; a negative \<^verbatim>\<open>nodesnumber\<close> is ValueError
  in \<^verbatim>\<open>np.zeros\<close>.
\<close>

definition circuit_parser :: "line list \<Rightarrow> py_error + graph" where
  "circuit_parser ls =
     (case ls of
        [] \<Rightarrow> Inl UnboundLocalError
      | l # rest \<Rightarrow>
          (case float_list l of Inl e \<Rightarrow> Inl e | Inr arrnum \<Rightarrow>
           case getitem arrnum 0 of Inl e \<Rightarrow> Inl e | Inr a0 \<Rightarrow>
           case getitem arrnum 1 of Inl e \<Rightarrow> Inl e | Inr a1 \<Rightarrow>
           let nodesnumber = py_int a0; edgesnumber = py_int a1
           in if nodesnumber < 0 then Inl ValueError
              else (case parse_lines (nat nodesnumber) rest
                           (replicate (nat nodesnumber) (replicate (nat nodesnumber) 0)) [] of
                      Inl e \<Rightarrow> Inl e
                    | Inr (kgam, kgedgatt) \<Rightarrow>
                        Inr (set_edge_attributes (from_pandas_adjacency kgam) kgedgatt))))"

section \<open>Branch lookup and classification\<close>

definition isstraight :: "nat \<Rightarrow> nat \<Rightarrow> nat \<times> nat \<Rightarrow> bool" where
  "isstraight org dst sd = (fst sd = org \<and> snd sd = dst)"

text \<open>
  \<^verbatim>\<open>get_edge_index\<close>: the loop over \<^verbatim>\<open>kg.edges()\<close> with its counter \<open>i\<close>. When the loop
  ends without a match the Python function ends without \<^verbatim>\<open>return\<close>: its value is
  \<^verbatim>\<open>None\<close>.
\<close>

fun get_edge_index_loop :: "(nat \<times> nat) list \<Rightarrow> nat \<Rightarrow> nat \<Rightarrow> nat \<Rightarrow> nat option" where
  "get_edge_index_loop [] org dst i = None"
| "get_edge_index_loop (edge # es) org dst i =
     (let c1 = (fst edge = org \<and> snd edge = dst);
          c2 = (snd edge = org \<and> fst edge = dst)
      in if c1 \<or> c2 then Some i else get_edge_index_loop es org dst (i + 1))"

definition get_edge_index :: "graph \<Rightarrow> nat \<Rightarrow> nat \<Rightarrow> nat option" where
  "get_edge_index kg org dst = get_edge_index_loop (edges kg) org dst 0"

text \<open>\<^verbatim>\<open>get_A_coord\<close> of \<^verbatim>\<open>BCSThesis/GRacC.py\<close> is the same function under another name.\<close>

definition get_A_coord :: "graph \<Rightarrow> nat \<Rightarrow> nat \<Rightarrow> nat option" where
  "get_A_coord kg org dst = get_edge_index_loop (edges kg) org dst 0"

text \<open>
  \<^verbatim>\<open>nx.get_edge_attributes(G, name).values()\<close>: the attribute of every edge, in the
  order of \<^verbatim>\<open>G.edges()\<close>, that has it.
\<close>

definition get_edge_attributes :: "graph \<Rightarrow> (edge_att \<Rightarrow> 'a) \<Rightarrow> 'a list" where
  "get_edge_attributes g name =
     concat (map (\<lambda>e. case map_of (att g) (ekey (fst e) (snd e)) of None \<Rightarrow> [] | Some a \<Rightarrow> [name a])
                 (edges g))"

text \<open>
  \<^verbatim>\<open>circuit_type(kg)\<close> reads the module's global \<^verbatim>\<open>kg3\<close>, which is the first argument
  here; its own parameter \<open>kg\<close> is the second. A Python function that passes its last
  \<^verbatim>\<open>if\<close> returns \<^verbatim>\<open>None\<close>.
\<close>

definition circuit_type :: "graph \<Rightarrow> graph \<Rightarrow> string option" where
  "circuit_type kg3 kg =
     (let svals = get_edge_attributes kg3 self;
          cvals = get_edge_attributes kg3 capacitor;
          contain_self = fold (\<lambda>sval f. if \<not> sval = 0 then True else f) svals False;
          contain_capacitor = fold (\<lambda>cval f. if \<not> cval = 0 then True else f) cvals False
      in if \<not> contain_self \<and> \<not> contain_capacitor then Some ''Ordinary''
         else if \<not> contain_self \<and> contain_capacitor then Some ''RC''
         else if contain_self \<and> \<not> contain_capacitor then Some ''RL''
         else if contain_self \<and> contain_capacitor then Some ''RLC''
         else None)"


section \<open>Spanning tree, eliminated edges and fundamental cycles\<close>

text \<open>
  \<^verbatim>\<open>nx.to_numpy_array(g).astype(int)\<close>: the entry is the edge's \<^verbatim>\<open>weight\<close>, which is 1
  for every edge of every graph of this program, and 0 where there is no edge.
\<close>

definition to_numpy_array :: "graph \<Rightarrow> int list list" where
  "to_numpy_array g =
     map (\<lambda>u. map (\<lambda>v. if v \<in> set (adj g ! u) then 1 else 0) [0..<length (adj g)])
         [0..<length (adj g)]"

text \<open>
  \<^verbatim>\<open>nx.minimum_spanning_tree(kg)\<close> is Kruskal's algorithm: the edges in the order of
  \<^verbatim>\<open>kg.edges()\<close> (the sort by weight is stable and all weights are 1), an edge taken when
  its ends are in different subtrees of the union-find structure. That structure is
  modelled by the list of the nodes' subtree labels; only the equality of two labels is
  ever observed. The tree has the nodes of \<open>kg\<close> and the taken edges, with their
  attributes, added in the order taken.
\<close>

definition uf_union :: "nat \<Rightarrow> nat \<Rightarrow> nat list \<Rightarrow> nat list" where
  "uf_union u v subtrees = map (\<lambda>c. if c = subtrees ! v then subtrees ! u else c) subtrees"

fun kruskal_mst_edges :: "(nat \<times> nat) list \<Rightarrow> nat list \<Rightarrow> (nat \<times> nat) list" where
  "kruskal_mst_edges [] subtrees = []"
| "kruskal_mst_edges (e # es) subtrees =
     (if subtrees ! fst e \<noteq> subtrees ! snd e
      then e # kruskal_mst_edges es (uf_union (fst e) (snd e) subtrees)
      else kruskal_mst_edges es subtrees)"

definition minimum_spanning_tree :: "graph \<Rightarrow> graph" where
  "minimum_spanning_tree kg =
     kg\<lparr>adj := fold add_edge (kruskal_mst_edges (edges kg) [0..<length (adj kg)])
                    (replicate (length (adj kg)) [])\<rparr>"

text \<open>
  \<^verbatim>\<open>Eliminated_Edges\<close>: the two nested loops over \<^verbatim>\<open>range(nodesnumber)\<close>, the list \<open>l\<close>
  as the state. Both arguments are square arrays of the same size in every call.
\<close>

fun Eliminated_Edges_loop ::
  "int list list \<Rightarrow> int list list \<Rightarrow> (nat \<times> nat) list \<Rightarrow> (nat \<times> nat) list \<Rightarrow> (nat \<times> nat) list" where
  "Eliminated_Edges_loop kgam kgmstam [] l = l"
| "Eliminated_Edges_loop kgam kgmstam ((i, j) # ps) l =
     (if kgam ! i ! j = 1 \<and> kgmstam ! i ! j = 0
      then (if (j, i) \<notin> set l
            then Eliminated_Edges_loop kgam kgmstam ps (l @ [(i, j)])
            else Eliminated_Edges_loop kgam kgmstam ps l)
      else Eliminated_Edges_loop kgam kgmstam ps l)"

definition Eliminated_Edges :: "int list list \<Rightarrow> int list list \<Rightarrow> (nat \<times> nat) list" where
  "Eliminated_Edges kgam kgmstam =
     Eliminated_Edges_loop kgam kgmstam
       (List.product [0..<length kgam] [0..<length kgam]) []"

text \<open>
  \<^verbatim>\<open>graph_list\<close>: \<open>glam\<close> is one three-dimensional array; \<^verbatim>\<open>glam[i] = kgmstam\<close> copies
  the values of \<open>kgmstam\<close> into its slice \<open>i\<close>, and the two assignments that follow write
  single cells of that slice.
\<close>

definition set_glam :: "int list list list \<Rightarrow> nat \<Rightarrow> nat \<Rightarrow> nat \<Rightarrow> py_error + int list list list" where
  "set_glam glam i r c =
     (if i < length glam \<and> r < length (glam ! i) \<and> c < length (glam ! i ! r)
      then Inr (glam[i := (glam ! i)[r := (glam ! i ! r)[c := 1]]])
      else Inl IndexError)"

fun graph_list_loop ::
  "int list list \<Rightarrow> (nat \<times> nat) list \<Rightarrow> nat \<Rightarrow> int list list list \<Rightarrow> py_error + int list list list" where
  "graph_list_loop kgmstam [] i glam = Inr glam"
| "graph_list_loop kgmstam (edge # eled) i glam =
     (if i < length glam
      then (case set_glam (glam[i := kgmstam]) i (fst edge) (snd edge) of
              Inl e \<Rightarrow> Inl e
            | Inr glam1 \<Rightarrow>
                (case set_glam glam1 i (snd edge) (fst edge) of
                   Inl e \<Rightarrow> Inl e
                 | Inr glam2 \<Rightarrow> graph_list_loop kgmstam eled (i + 1) glam2))
      else Inl IndexError)"

definition graph_list_glam :: "int list list \<Rightarrow> (nat \<times> nat) list \<Rightarrow> py_error + int list list list" where
  "graph_list_glam kgmstam eled =
     graph_list_loop kgmstam eled 0
       (replicate (length eled) (replicate (length kgmstam) (replicate (length kgmstam) 0)))"

definition graph_list :: "int list list \<Rightarrow> (nat \<times> nat) list \<Rightarrow> py_error + graph list" where
  "graph_list kgmstam eled =
     (case graph_list_glam kgmstam eled of
        Inl e \<Rightarrow> Inl e
      | Inr glam \<Rightarrow> Inr (map from_pandas_adjacency glam))"

text \<open>
  \<^verbatim>\<open>nx.edge_dfs(G, start, "ignore")\<close> on an undirected graph: the stack of nodes, one
  iterator over \<^verbatim>\<open>G.edges(node)\<close> per node (here the neighbours not yet drawn from it)
  and the set of visited edges, an edge being identified by its unordered pair of
  ends. The result is the list of the edges yielded.
\<close>

function edge_dfs :: "nat list \<Rightarrow> nat list list \<Rightarrow> (nat \<times> nat) list \<Rightarrow> (nat \<times> nat) list" where
  "edge_dfs [] its visited_edges = []"
| "edge_dfs (current_node # stack) its visited_edges =
     (if current_node < length its
      then (case its ! current_node of
              [] \<Rightarrow> edge_dfs stack its visited_edges
            | nbr # rest \<Rightarrow>
                (if ekey current_node nbr \<in> set visited_edges
                 then edge_dfs (current_node # stack) (its[current_node := rest]) visited_edges
                 else (current_node, nbr) #
                      edge_dfs (nbr # current_node # stack) (its[current_node := rest])
                        (ekey current_node nbr # visited_edges)))
      else edge_dfs stack its visited_edges)"
  by pat_completeness auto

lemma sum_list_length_update:
  "i < length its \<Longrightarrow> its ! i = x # rest \<Longrightarrow>
   sum_list (map length (its[i := rest])) < sum_list (map length its)"
proof (induction its arbitrary: i)
  case Nil
  then show ?case by simp
next
  case (Cons a its)
  then show ?case by (cases i) auto
qed

termination edge_dfs
  by (relation "measures [\<lambda>(st, its, vis). sum_list (map length its), \<lambda>(st, its, vis). length st]")
     (auto simp: sum_list_length_update)

text \<open>
  \<^verbatim>\<open>nx.find_cycle(g, orientation="ignore")\<close>. The list \<^verbatim>\<open>edges\<close> of the active path is
  kept with its last element first. \<open>pop_edges\<close> is the \<^verbatim>\<open>while True\<close> loop that backs
  the path up to the tail of the next edge.
\<close>

fun pop_edges :: "nat \<Rightarrow> (nat \<times> nat) list \<Rightarrow> nat list \<Rightarrow> (nat \<times> nat) list \<times> nat list" where
  "pop_edges tail [] active_nodes = ([], [tail])"
| "pop_edges tail (popped_edge # es) active_nodes =
     (let active' = removeAll (snd popped_edge) active_nodes
      in if es \<noteq> [] \<and> tail = snd (hd es) then (es, active')
         else pop_edges tail es active')"

fun find_cycle_scan ::
  "nat list \<Rightarrow> (nat \<times> nat) list \<Rightarrow> (nat \<times> nat) list \<Rightarrow> nat list \<Rightarrow> nat list \<Rightarrow> nat option \<Rightarrow>
   ((nat \<times> nat) list \<times> nat) + nat list" where
  "find_cycle_scan explored [] es seen active_nodes previous_head = Inr seen"
| "find_cycle_scan explored (edge # rest) es seen active_nodes previous_head =
     (if snd edge \<in> set explored
      then find_cycle_scan explored rest es seen active_nodes previous_head
      else
        (let (es1, active1) =
               (case previous_head of
                  None \<Rightarrow> (es, active_nodes)
                | Some p \<Rightarrow> if fst edge \<noteq> p then pop_edges (fst edge) es active_nodes
                            else (es, active_nodes))
         in if snd edge \<in> set active1 then Inl (rev (edge # es1), snd edge)
            else find_cycle_scan explored rest (edge # es1) (snd edge # seen)
                   (snd edge # active1) (Some (snd edge))))"

fun find_cycle_from :: "graph \<Rightarrow> nat list \<Rightarrow> nat list \<Rightarrow> ((nat \<times> nat) list \<times> nat) option" where
  "find_cycle_from g [] explored = None"
| "find_cycle_from g (start_node # ns) explored =
     (if start_node \<in> set explored then find_cycle_from g ns explored
      else (case find_cycle_scan explored (edge_dfs [start_node] (adj g) []) []
                   [start_node] [start_node] None of
              Inl found \<Rightarrow> Some found
            | Inr seen \<Rightarrow> find_cycle_from g ns (seen @ explored)))"

text \<open>The final loop of \<^verbatim>\<open>find_cycle\<close> and its \<^verbatim>\<open>cycle[i:]\<close>.\<close>

fun trim_cycle :: "nat \<Rightarrow> (nat \<times> nat) list \<Rightarrow> (nat \<times> nat) list" where
  "trim_cycle final_node [] = []"
| "trim_cycle final_node [e] = [e]"
| "trim_cycle final_node (e # es) =
     (if fst e = final_node then e # es else trim_cycle final_node es)"

text \<open>\<open>None\<close> is the exception \<^verbatim>\<open>NetworkXNoCycle\<close>.\<close>

definition find_cycle :: "graph \<Rightarrow> (nat \<times> nat) list option" where
  "find_cycle g =
     (case find_cycle_from g [0..<length (adj g)] [] of
        None \<Rightarrow> None
      | Some (cycle, final_node) \<Rightarrow> Some (trim_cycle final_node cycle))"

fun find_fundamental_cycles :: "graph list \<Rightarrow> (nat \<times> nat) list list" where
  "find_fundamental_cycles [] = []"
| "find_fundamental_cycles (g # gl) =
     (case find_cycle g of
        None \<Rightarrow> find_fundamental_cycles gl
      | Some c \<Rightarrow> c # find_fundamental_cycles gl)"

text \<open>The first six lines shared by the three analysis functions.\<close>

definition fundamental_cycles :: "graph \<Rightarrow> py_error + (nat \<times> nat) list list" where
  "fundamental_cycles kg =
     (let kgmstam = to_numpy_array (minimum_spanning_tree kg);
          kgam = to_numpy_array kg;
          eled = Eliminated_Edges kgam kgmstam
      in case graph_list kgmstam eled of
           Inl e \<Rightarrow> Inl e
         | Inr gl \<Rightarrow> Inr (find_fundamental_cycles gl))"


section \<open>The linear system\<close>

text \<open>
  \<open>A\<close> is a list of rows, the column vector \<open>B\<close> a list (\<^verbatim>\<open>B[i][0]\<close> is \<open>B ! i\<close>).
  \<^verbatim>\<open>A[i][cor] = res\<close>: when \<open>cor\<close> is \<^verbatim>\<open>None\<close> (numpy's \<^verbatim>\<open>newaxis\<close>) the assignment
  broadcasts \<open>res\<close> over row \<open>i\<close>.
\<close>

definition set_A :: "real list list \<Rightarrow> nat \<Rightarrow> nat option \<Rightarrow> real \<Rightarrow> py_error + real list list" where
  "set_A A i cor res =
     (if i < length A
      then (case cor of
              None \<Rightarrow> Inr (A[i := map (\<lambda>_. res) (A ! i)])
            | Some c \<Rightarrow> if c < length (A ! i) then Inr (A[i := (A ! i)[c := res]])
                        else Inl IndexError)
      else Inl IndexError)"

definition set_B :: "real list \<Rightarrow> nat \<Rightarrow> real \<Rightarrow> py_error + real list" where
  "set_B B i volsum = (if i < length B then Inr (B[i := volsum]) else Inl IndexError)"

text \<open>The body of \<^verbatim>\<open>for edge in cycle\<close>; the state is \<open>(volsum, A)\<close>.\<close>

definition kvl_edge ::
  "graph \<Rightarrow> nat \<Rightarrow> nat \<times> nat \<Rightarrow> real \<times> real list list \<Rightarrow> py_error + (real \<times> real list list)" where
  "kvl_edge kg i edge st =
     (let org = fst edge; dst = snd edge; volsum = fst st; A = snd st
      in case get_edge_data kg org dst of
           Inl e \<Rightarrow> Inl e
         | Inr d \<Rightarrow>
             if isstraight org dst (suggested_dir d)
             then (case set_A A i (get_edge_index kg org dst) (- resistor d) of
                     Inl e \<Rightarrow> Inl e
                   | Inr A' \<Rightarrow> Inr (volsum - battery d, A'))
             else (case set_A A i (get_edge_index kg org dst) (resistor d) of
                     Inl e \<Rightarrow> Inl e
                   | Inr A' \<Rightarrow> Inr (volsum + battery d, A')))"

fun kvl_cycle ::
  "graph \<Rightarrow> nat \<Rightarrow> (nat \<times> nat) list \<Rightarrow> real \<times> real list list \<Rightarrow> py_error + (real \<times> real list list)" where
  "kvl_cycle kg i [] st = Inr st"
| "kvl_cycle kg i (edge # cycle) st =
     (case kvl_edge kg i edge st of
        Inl e \<Rightarrow> Inl e
      | Inr st' \<Rightarrow> kvl_cycle kg i cycle st')"

text \<open>The loop \<^verbatim>\<open>for cycle in fcl\<close>; the state is \<open>(i, A, B)\<close>.\<close>

fun kvl_rows ::
  "graph \<Rightarrow> (nat \<times> nat) list list \<Rightarrow> nat \<Rightarrow> real list list \<Rightarrow> real list \<Rightarrow>
   py_error + (nat \<times> real list list \<times> real list)" where
  "kvl_rows kg [] i A B = Inr (i, A, B)"
| "kvl_rows kg (cycle # fcl) i A B =
     (case kvl_cycle kg i cycle (0, A) of
        Inl e \<Rightarrow> Inl e
      | Inr (volsum, A') \<Rightarrow>
          (case set_B B i volsum of
             Inl e \<Rightarrow> Inl e
           | Inr B' \<Rightarrow> kvl_rows kg fcl (i + 1) A' B'))"

text \<open>The body of \<^verbatim>\<open>for nei in kg.neighbors(node)\<close> and that loop.\<close>

definition kcl_edge :: "graph \<Rightarrow> nat \<Rightarrow> nat \<Rightarrow> nat \<Rightarrow> real list list \<Rightarrow> py_error + real list list" where
  "kcl_edge kg i node nei A =
     (case get_edge_data kg node nei of
        Inl e \<Rightarrow> Inl e
      | Inr d \<Rightarrow>
          if isstraight node nei (suggested_dir d)
          then set_A A i (get_edge_index kg node nei) (- 1)
          else set_A A i (get_edge_index kg node nei) 1)"

fun kcl_node :: "graph \<Rightarrow> nat \<Rightarrow> nat \<Rightarrow> nat list \<Rightarrow> real list list \<Rightarrow> py_error + real list list" where
  "kcl_node kg i node [] A = Inr A"
| "kcl_node kg i node (nei # neis) A =
     (case kcl_edge kg i node nei A of
        Inl e \<Rightarrow> Inl e
      | Inr A' \<Rightarrow> kcl_node kg i node neis A')"

text \<open>
  The loop \<^verbatim>\<open>for node in kg.nodes\<close> with its \<^verbatim>\<open>break\<close>; the state is \<open>(i, A)\<close>.
\<close>

fun kcl_rows :: "graph \<Rightarrow> nat list \<Rightarrow> nat \<Rightarrow> real list list \<Rightarrow> py_error + (nat \<times> real list list)" where
  "kcl_rows kg [] i A = Inr (i, A)"
| "kcl_rows kg (node # nodes) i A =
     (case kcl_node kg i node (adj kg ! node) A of
        Inl e \<Rightarrow> Inl e
      | Inr A' \<Rightarrow> if i + 1 = number_of_edges kg then Inr (i + 1, A')
                  else kcl_rows kg nodes (i + 1) A')"

text \<open>
  The lines that \<^verbatim>\<open>find_kg_edges_weights\<close> and \<^verbatim>\<open>find_kg_edges_weights_RC\<close> share, up
  to the end of the node loop: the system \<open>(A, B)\<close>, with the number of rows written by
  the cycle loop and the value of \<open>i\<close> after the node loop.
\<close>

definition kg_system :: "graph \<Rightarrow> py_error + (nat \<times> nat \<times> real list list \<times> real list)" where
  "kg_system kg =
     (case fundamental_cycles kg of
        Inl e \<Rightarrow> Inl e
      | Inr fcl \<Rightarrow>
          (let edge_number = number_of_edges kg;
               B = replicate edge_number 0;
               A = replicate edge_number (replicate edge_number 0)
           in case kvl_rows kg fcl 0 A B of
                Inl e \<Rightarrow> Inl e
              | Inr (i, A1, B1) \<Rightarrow>
                  (case kcl_rows kg [0..<length (adj kg)] i A1 of
                     Inl e \<Rightarrow> Inl e
                   | Inr (i', A2) \<Rightarrow> Inr (i, i', A2, B1))))"

text \<open>
  \<^verbatim>\<open>scipy.linalg.solve(A, B)\<close> in exact arithmetic: elimination with partial pivoting
  (the first row with the largest absolute value in the column) and back substitution.
  A row is its coefficients with its right-hand side. A zero pivot is LinAlgError, a
  matrix that is not square or does not fit \<open>B\<close> is ValueError. The library computes
  with binary floating-point numbers, so this is the solver up to rounding: the two
  agree where every step is exact in floating point, as on the systems of small
  integers solved below, and they can part where rounding turns a zero pivot into a tiny
  one (the library then returns numbers with a warning) or changes the last digits of a
  result.
\<close>

fun argmax_abs :: "real list \<Rightarrow> nat" where
  "argmax_abs [] = 0"
| "argmax_abs [x] = 0"
| "argmax_abs (x # y # ys) =
     (let k = argmax_abs (y # ys) in if \<bar>(y # ys) ! k\<bar> \<le> \<bar>x\<bar> then 0 else Suc k)"

definition remove_nth :: "nat \<Rightarrow> 'a list \<Rightarrow> 'a list" where
  "remove_nth k xs = take k xs @ drop (Suc k) xs"

definition eliminate :: "real list \<times> real \<Rightarrow> real list \<times> real \<Rightarrow> real list \<times> real" where
  "eliminate piv row =
     (let f = hd (fst row) / hd (fst piv)
      in (map2 (\<lambda>x y. x - f * y) (tl (fst row)) (tl (fst piv)), snd row - f * snd piv))"

fun solve_rows :: "nat \<Rightarrow> (real list \<times> real) list \<Rightarrow> real list option" where
  "solve_rows 0 rows = Some []"
| "solve_rows (Suc n) rows =
     (let p = argmax_abs (map (\<lambda>r. hd (fst r)) rows);
          piv = rows ! p
      in if hd (fst piv) = 0 then None
         else (case solve_rows n (map (eliminate piv) (remove_nth p rows)) of
                 None \<Rightarrow> None
               | Some xs \<Rightarrow>
                   Some ((snd piv - sum_list (map2 (*) (tl (fst piv)) xs)) / hd (fst piv) # xs)))"

definition linalg_solve :: "nat \<Rightarrow> real list list \<Rightarrow> real list \<Rightarrow> py_error + real list" where
  "linalg_solve ncols A B =
     (if length A \<noteq> ncols \<or> length B \<noteq> length A then Inl ValueError
      else (case solve_rows ncols (zip A B) of
              None \<Rightarrow> Inl LinAlgError
            | Some x \<Rightarrow> Inr x))"

definition find_kg_edges_weights :: "graph \<Rightarrow> py_error + real list" where
  "find_kg_edges_weights kg =
     (case kg_system kg of
        Inl e \<Rightarrow> Inl e
      | Inr (i, i', A, B) \<Rightarrow> linalg_solve (number_of_edges kg) A B)"

section \<open>Constant and variable weights\<close>

text \<open>The body of \<^verbatim>\<open>for edge in cycle\<close>; the state is
  \<open>(varicyc, variable_weight_edge, const_weight_edge)\<close>.\<close>

definition sep_edge ::
  "graph \<Rightarrow> nat \<times> nat \<Rightarrow> bool \<times> (nat \<times> nat) list \<times> (nat \<times> nat) list \<Rightarrow>
   py_error + (bool \<times> (nat \<times> nat) list \<times> (nat \<times> nat) list)" where
  "sep_edge kg edge st =
     (let org = fst edge; dst = snd edge;
          varicyc = fst st; variable_weight_edge = fst (snd st); const_weight_edge = snd (snd st)
      in case get_edge_data kg org dst of
           Inl e \<Rightarrow> Inl e
         | Inr d \<Rightarrow>
             (let cap = capacitor d;
                  istrt = isstraight org dst (suggested_dir d);
                  t = (if istrt then (org, dst) else (dst, org))
              in if cap = 0
                 then (if \<not> t \<in> set const_weight_edge
                       then Inr (varicyc, variable_weight_edge, const_weight_edge @ [t])
                       else Inr (varicyc, variable_weight_edge, const_weight_edge))
                 else (if \<not> t \<in> set variable_weight_edge
                       then Inr (True, variable_weight_edge @ [t], const_weight_edge)
                       else Inr (True, variable_weight_edge, const_weight_edge))))"

fun sep_cycle ::
  "graph \<Rightarrow> (nat \<times> nat) list \<Rightarrow> bool \<times> (nat \<times> nat) list \<times> (nat \<times> nat) list \<Rightarrow>
   py_error + (bool \<times> (nat \<times> nat) list \<times> (nat \<times> nat) list)" where
  "sep_cycle kg [] st = Inr st"
| "sep_cycle kg (edge # cycle) st =
     (case sep_edge kg edge st of
        Inl e \<Rightarrow> Inl e
      | Inr st' \<Rightarrow> sep_cycle kg cycle st')"

record separation =
  variable_weight_edge :: "(nat \<times> nat) list"
  const_weight_edge :: "(nat \<times> nat) list"
  const_weight_cycle :: "(nat \<times> nat) list list"
  variable_weight_cycle :: "(nat \<times> nat) list list"
  variable_weight_cycle_index :: "nat list"

fun sep_rows :: "graph \<Rightarrow> (nat \<times> nat) list list \<Rightarrow> nat \<Rightarrow> separation \<Rightarrow> py_error + separation" where
  "sep_rows kg [] i s = Inr s"
| "sep_rows kg (cycle # fcl) i s =
     (case sep_cycle kg cycle (False, variable_weight_edge s, const_weight_edge s) of
        Inl e \<Rightarrow> Inl e
      | Inr (varicyc, vwe, cwe) \<Rightarrow>
          (if varicyc
           then sep_rows kg fcl (i + 1)
                  (s\<lparr>variable_weight_edge := vwe, const_weight_edge := cwe,
                     variable_weight_cycle := variable_weight_cycle s @ [cycle],
                     variable_weight_cycle_index := variable_weight_cycle_index s @ [i]\<rparr>)
           else sep_rows kg fcl (i + 1)
                  (s\<lparr>variable_weight_edge := vwe, const_weight_edge := cwe,
                     const_weight_cycle := const_weight_cycle s @ [cycle]\<rparr>)))"

definition seperate_const_variable_cycle_and_loop :: "graph \<Rightarrow> py_error + separation" where
  "seperate_const_variable_cycle_and_loop kg =
     (case fundamental_cycles kg of
        Inl e \<Rightarrow> Inl e
      | Inr fcl \<Rightarrow>
          sep_rows kg fcl 0
            \<lparr>variable_weight_edge = [], const_weight_edge = [], const_weight_cycle = [],
             variable_weight_cycle = [], variable_weight_cycle_index = []\<rparr>)"

text \<open>
  \<^verbatim>\<open>np.delete(X, e, 0)\<close> with a list of indices: the rows whose index is in the list are
  removed; an index out of bounds is IndexError.
\<close>

definition np_delete_rows :: "'a list \<Rightarrow> nat list \<Rightarrow> py_error + 'a list" where
  "np_delete_rows X e =
     (if list_all (\<lambda>k. k < length X) e
      then Inr (map snd (filter (\<lambda>p. fst p \<notin> set e) (zip [0..<length X] X)))
      else Inl IndexError)"

text \<open>
  \<^verbatim>\<open>np.delete(A, edin, 1)\<close> with one index on an array of \<open>ncols\<close> columns; \<^verbatim>\<open>None\<close>
  is no valid index.
\<close>

definition np_delete_col :: "nat \<Rightarrow> real list list \<Rightarrow> nat option \<Rightarrow> py_error + real list list" where
  "np_delete_col ncols A edin =
     (case edin of
        None \<Rightarrow> Inl IndexError
      | Some c \<Rightarrow> if c < ncols then Inr (map (remove_nth c) A) else Inl IndexError)"

text \<open>The loop \<^verbatim>\<open>for index in e\<close>: its body deletes the rows of the whole list \<open>e\<close>.\<close>

fun rc_delete_rows ::
  "nat list \<Rightarrow> nat list \<Rightarrow> real list list \<Rightarrow> real list \<Rightarrow> py_error + (real list list \<times> real list)" where
  "rc_delete_rows e [] A B = Inr (A, B)"
| "rc_delete_rows e (index # rest) A B =
     (case np_delete_rows A e of
        Inl err \<Rightarrow> Inl err
      | Inr A' \<Rightarrow>
          (case np_delete_rows B e of
             Inl err \<Rightarrow> Inl err
           | Inr B' \<Rightarrow> rc_delete_rows e rest A' B'))"

text \<open>The loop \<^verbatim>\<open>for n in range(len(a))\<close>; the state is \<open>A\<close> with its number of columns.\<close>

fun rc_delete_cols ::
  "graph \<Rightarrow> (nat \<times> nat) list \<Rightarrow> nat \<Rightarrow> real list list \<Rightarrow> py_error + (nat \<times> real list list)" where
  "rc_delete_cols kg3 [] ncols A = Inr (ncols, A)"
| "rc_delete_cols kg3 (an # a) ncols A =
     (case np_delete_col ncols A (get_edge_index kg3 (fst an) (snd an)) of
        Inl err \<Rightarrow> Inl err
      | Inr A' \<Rightarrow> rc_delete_cols kg3 a (ncols - 1) A')"

text \<open>
  \<^verbatim>\<open>find_kg_edges_weights_RC(kg)\<close> up to its call of the solver; the module's global
  \<^verbatim>\<open>kg3\<close> is the first argument.
\<close>

definition rc_system ::
  "graph \<Rightarrow> graph \<Rightarrow> py_error + (nat \<times> real list list \<times> real list)" where
  "rc_system kg3 kg =
     (case kg_system kg of
        Inl err \<Rightarrow> Inl err
      | Inr (i, i', A, B) \<Rightarrow>
          (case seperate_const_variable_cycle_and_loop kg3 of
             Inl err \<Rightarrow> Inl err
           | Inr s \<Rightarrow>
               (let a = variable_weight_edge s; e = variable_weight_cycle_index s
                in case rc_delete_rows e e A B of
                     Inl err \<Rightarrow> Inl err
                   | Inr (A1, B1) \<Rightarrow>
                       (case rc_delete_cols kg3 a (number_of_edges kg) A1 of
                          Inl err \<Rightarrow> Inl err
                        | Inr (ncols, A2) \<Rightarrow> Inr (ncols, A2, B1)))))"

definition find_kg_edges_weights_RC :: "graph \<Rightarrow> graph \<Rightarrow> py_error + real list" where
  "find_kg_edges_weights_RC kg3 kg =
     (case rc_system kg3 kg of
        Inl err \<Rightarrow> Inl err
      | Inr (ncols, A, B) \<Rightarrow> linalg_solve ncols A B)"

section \<open>Example circuits\<close>

text \<open>A line of a description all of whose pieces are numbers.\<close>

definition numbers :: "real list \<Rightarrow> line" where
  "numbers xs = map Some xs"

text \<open>The triangle circuit: three nodes, three branches of 1 Ohm, 6 Volts on the first.\<close>

definition triangle_records :: "line list" where
  "triangle_records =
     map numbers [[3, 3], [0, 1, 1, 6, 0, 0], [1, 2, 1, 0, 0, 0], [2, 0, 1, 0, 0, 0]]"

definition triangle :: graph where
  "triangle =
     \<lparr>adj = [[1, 2], [0, 2], [1, 0]],
      att = [((0, 1), \<lparr>resistor = 1, battery = 6, capacitor = 0, self = 0, suggested_dir = (0, 1)\<rparr>),
             ((1, 2), \<lparr>resistor = 1, battery = 0, capacitor = 0, self = 0, suggested_dir = (1, 2)\<rparr>),
             ((0, 2), \<lparr>resistor = 1, battery = 0, capacitor = 0, self = 0, suggested_dir = (2, 0)\<rparr>)]\<rparr>"

text \<open>The triangle with a capacitor of 3 Farad on the branch from 1 to 2.\<close>

definition rc_triangle_records :: "line list" where
  "rc_triangle_records =
     map numbers [[3, 3], [0, 1, 1, 6, 0, 0], [1, 2, 1, 0, 3, 0], [2, 0, 1, 0, 0, 0]]"

definition rc_triangle :: graph where
  "rc_triangle =
     \<lparr>adj = [[1, 2], [0, 2], [1, 0]],
      att = [((0, 1), \<lparr>resistor = 1, battery = 6, capacitor = 0, self = 0, suggested_dir = (0, 1)\<rparr>),
             ((1, 2), \<lparr>resistor = 1, battery = 0, capacitor = 3, self = 0, suggested_dir = (1, 2)\<rparr>),
             ((0, 2), \<lparr>resistor = 1, battery = 0, capacitor = 0, self = 0, suggested_dir = (2, 0)\<rparr>)]\<rparr>"

text \<open>Two branches that form two separate components on four nodes.\<close>

definition two_components_records :: "line list" where
  "two_components_records = map numbers [[4, 2], [0, 1, 1, 6, 0, 0], [2, 3, 1, 0, 0, 0]]"

definition two_components :: graph where
  "two_components =
     \<lparr>adj = [[1], [0], [3], [2]],
      att = [((0, 1), \<lparr>resistor = 1, battery = 6, capacitor = 0, self = 0, suggested_dir = (0, 1)\<rparr>),
             ((2, 3), \<lparr>resistor = 1, battery = 0, capacitor = 0, self = 0, suggested_dir = (2, 3)\<rparr>)]\<rparr>"

text \<open>Four nodes and five branches, the two branches off the spanning tree with a capacitor.\<close>

definition two_loops_records :: "line list" where
  "two_loops_records =
     map numbers [[4, 5], [0, 1, 1, 6, 0, 0], [0, 2, 1, 0, 0, 0], [0, 3, 1, 0, 0, 0],
                  [1, 2, 1, 0, 1, 0], [2, 3, 1, 0, 1, 0]]"

definition two_loops :: graph where
  "two_loops =
     \<lparr>adj = [[1, 2, 3], [0, 2], [0, 1, 3], [0, 2]],
      att = [((0, 1), \<lparr>resistor = 1, battery = 6, capacitor = 0, self = 0, suggested_dir = (0, 1)\<rparr>),
             ((0, 2), \<lparr>resistor = 1, battery = 0, capacitor = 0, self = 0, suggested_dir = (0, 2)\<rparr>),
             ((0, 3), \<lparr>resistor = 1, battery = 0, capacitor = 0, self = 0, suggested_dir = (0, 3)\<rparr>),
             ((1, 2), \<lparr>resistor = 1, battery = 0, capacitor = 1, self = 0, suggested_dir = (1, 2)\<rparr>),
             ((2, 3), \<lparr>resistor = 1, battery = 0, capacitor = 1, self = 0, suggested_dir = (2, 3)\<rparr>)]\<rparr>"











text \<open>
  The vocabulary of the parser's failures. A line has its fields when it has at least
  \<open>k\<close> pieces and every piece is a number. A description is well formed when it has a
  first line of two fields or more with a number of nodes that is not negative, and
  every other line has six fields or more. A node index is accepted by the array when it
  fits a machine integer and lies in \<open>[-n, n)\<close>; the node indices of a description are
  read line by line, origin before destination.
\<close>

definition fields_ok :: "nat \<Rightarrow> line \<Rightarrow> bool" where
  "fields_ok k l \<longleftrightarrow> k \<le> length l \<and> None \<notin> set l"

definition node_count :: "line list \<Rightarrow> int" where
  "node_count ls = py_int (the (hd ls ! 0))"

definition well_formed :: "line list \<Rightarrow> bool" where
  "well_formed ls \<longleftrightarrow>
     ls \<noteq> [] \<and> fields_ok 2 (hd ls) \<and> 0 \<le> node_count ls \<and> list_all (fields_ok 6) (tl ls)"






text \<open>
  A square array with the two cells of the edge \<open>e\<close> set to 1: the spanning tree's
  array plus the edge \<open>e\<close> and no other.
\<close>

definition with_edge :: "int list list \<Rightarrow> nat \<times> nat \<Rightarrow> int list list" where
  "with_edge m e = (let m1 = m[fst e := (m ! fst e)[snd e := 1]]
                    in m1[snd e := (m1 ! snd e)[fst e := 1]])"

definition square :: "'a list list \<Rightarrow> bool" where
  "square m = list_all (\<lambda>row. length row = length m) m"

definition in_range :: "nat \<Rightarrow> (nat \<times> nat) list \<Rightarrow> bool" where
  "in_range n es = list_all (\<lambda>e. fst e < n \<and> snd e < n) es"

text \<open>The array of the spanning tree of \<open>two_loops\<close>.\<close>

definition two_loops_tree :: "int list list" where
  "two_loops_tree = [[0, 1, 1, 1], [1, 0, 0, 0], [1, 0, 0, 0], [1, 0, 0, 0]]"

text \<open>
  What every networkx graph over the nodes \<open>0 .. n-1\<close> satisfies: the neighbours of a
  node are nodes, no neighbour is listed twice, and \<open>u\<close> is a neighbour of \<open>v\<close> when \<open>v\<close>
  is one of \<open>u\<close>.
\<close>

definition adj_ok :: "nat list list \<Rightarrow> bool" where
  "adj_ok a = list_all (\<lambda>u. distinct (a ! u) \<and>
                 list_all (\<lambda>v. v < length a \<and> u \<in> set (a ! v)) (a ! u)) [0..<length a]"

definition graph_ok :: "graph \<Rightarrow> bool" where
  "graph_ok g = adj_ok (adj g)"

text \<open>There is a node, and every node is reached from every node along edges.\<close>

definition edge_rel :: "graph \<Rightarrow> (nat \<times> nat) set" where
  "edge_rel g = {(u, v). has_edge g u v}"

definition connected :: "graph \<Rightarrow> bool" where
  "connected g \<longleftrightarrow>
     0 < length (adj g) \<and>
     (\<forall>u < length (adj g). \<forall>v < length (adj g). (u, v) \<in> (edge_rel g)\<^sup>*)"

text \<open>One branch between two nodes.\<close>

definition single_branch_records :: "line list" where
  "single_branch_records = map numbers [[2, 1], [0, 1, 1, 6, 0, 0]]"

definition single_branch :: graph where
  "single_branch =
     \<lparr>adj = [[1], [0]],
      att = [((0, 1), \<lparr>resistor = 1, battery = 6, capacitor = 0, self = 0, suggested_dir = (0, 1)\<rparr>)]\<rparr>"

text \<open>
  The vocabulary of the partition: the canonical orientation of a branch met in a cycle
  as \<open>(org, dst)\<close>, its capacitance, and whether a cycle has a branch of nonzero
  capacitance.
\<close>

definition canonical :: "graph \<Rightarrow> nat \<times> nat \<Rightarrow> nat \<times> nat" where
  "canonical kg e =
     (case get_edge_data kg (fst e) (snd e) of
        Inl _ \<Rightarrow> e
      | Inr d \<Rightarrow> if isstraight (fst e) (snd e) (suggested_dir d) then (fst e, snd e)
                 else (snd e, fst e))"

definition edge_capacitor :: "graph \<Rightarrow> nat \<times> nat \<Rightarrow> real" where
  "edge_capacitor kg e =
     (case get_edge_data kg (fst e) (snd e) of Inl _ \<Rightarrow> 0 | Inr d \<Rightarrow> capacitor d)"

definition variable_cycle :: "graph \<Rightarrow> (nat \<times> nat) list \<Rightarrow> bool" where
  "variable_cycle kg cycle = list_ex (\<lambda>e. edge_capacitor kg e \<noteq> 0) cycle"

definition cycle_branches :: "(nat \<times> nat) list list \<Rightarrow> (nat \<times> nat) set" where
  "cycle_branches fcl = set (concat fcl)"

text \<open>The fundamental cycles of \<open>two_loops\<close> and its partition.\<close>

definition two_loops_cycles :: "(nat \<times> nat) list list" where
  "two_loops_cycles = [[(0, 1), (1, 2), (2, 0)], [(0, 2), (2, 3), (3, 0)]]"

definition two_loops_separation :: separation where
  "two_loops_separation =
     \<lparr>variable_weight_edge = [(1, 2), (2, 3)],
      const_weight_edge = [(0, 1), (0, 2), (0, 3)],
      const_weight_cycle = [],
      variable_weight_cycle = [[(0, 1), (1, 2), (2, 0)], [(0, 2), (2, 3), (3, 0)]],
      variable_weight_cycle_index = [0, 1]\<rparr>"

text \<open>
  The vocabulary of the cycle rows: the column of a branch met as \<open>(org, dst)\<close>, and its
  source voltage and its resistance with the sign of the traversal, minus when the
  traversal is the branch's \<^verbatim>\<open>suggested_dir\<close> and plus when it is reversed.
\<close>

definition column :: "graph \<Rightarrow> nat \<times> nat \<Rightarrow> nat option" where
  "column kg e = get_edge_index kg (fst e) (snd e)"

definition signed_battery :: "graph \<Rightarrow> nat \<times> nat \<Rightarrow> real" where
  "signed_battery kg e =
     (case get_edge_data kg (fst e) (snd e) of
        Inl _ \<Rightarrow> 0
      | Inr d \<Rightarrow> if isstraight (fst e) (snd e) (suggested_dir d) then - battery d
                 else battery d)"

definition signed_resistor :: "graph \<Rightarrow> nat \<times> nat \<Rightarrow> real" where
  "signed_resistor kg e =
     (case get_edge_data kg (fst e) (snd e) of
        Inl _ \<Rightarrow> 0
      | Inr d \<Rightarrow> if isstraight (fst e) (snd e) (suggested_dir d) then - resistor d
                 else resistor d)"

text \<open>
  A row written by the walk of a cycle over the row \<open>row0\<close>: the column of a branch
  holds the signed resistance of the branch's last visit, every other column is as it
  was.
\<close>

definition cycle_row :: "graph \<Rightarrow> (nat \<times> nat) list \<Rightarrow> real list \<Rightarrow> real list \<Rightarrow> bool" where
  "cycle_row kg cycle row0 row \<longleftrightarrow>
     length row = length row0 \<and>
     (\<forall>p < length cycle. \<forall>c.
        column kg (cycle ! p) = Some c \<and>
        (\<forall>q. p < q \<and> q < length cycle \<longrightarrow> column kg (cycle ! q) \<noteq> Some c) \<longrightarrow>
        row ! c = signed_resistor kg (cycle ! p)) \<and>
     (\<forall>c. (\<forall>e \<in> set cycle. column kg e \<noteq> Some c) \<longrightarrow> row ! c = row0 ! c)"

text \<open>The fundamental cycle of the triangle and its linear system.\<close>

definition triangle_cycle :: "(nat \<times> nat) list" where
  "triangle_cycle = [(0, 1), (1, 2), (2, 0)]"

definition triangle_A :: "real list list" where
  "triangle_A = [[- 1, - 1, - 1], [- 1, 1, 0], [1, 0, - 1]]"

definition triangle_B :: "real list" where
  "triangle_B = [- 6, 0, 0]"

text \<open>The subtree labels that Kruskal's loop ends with.\<close>

fun kruskal_subtrees :: "(nat \<times> nat) list \<Rightarrow> nat list \<Rightarrow> nat list" where
  "kruskal_subtrees [] subtrees = subtrees"
| "kruskal_subtrees (e # es) subtrees =
     (if subtrees ! fst e \<noteq> subtrees ! snd e
      then kruskal_subtrees es (uf_union (fst e) (snd e) subtrees)
      else kruskal_subtrees es subtrees)"

text \<open>The order in which the two nested loops of \<^verbatim>\<open>Eliminated_Edges\<close> visit the cells.\<close>

definition lex_less :: "nat \<times> nat \<Rightarrow> nat \<times> nat \<Rightarrow> bool" where
  "lex_less p q \<longleftrightarrow> fst p < fst q \<or> (fst p = fst q \<and> snd p < snd q)"

text \<open>
  What holds of the state of \<^verbatim>\<open>edge_dfs\<close> (stack, iterators, visited edges) and of the
  nodes seen by \<^verbatim>\<open>find_cycle\<close> as long as no cycle has been met: every neighbour
  already drawn from an iterator stands for a visited edge, the stack has no node
  twice, a seen node off the stack has an empty iterator, and every visited edge
  led to a new node.
\<close>

definition dfs_inv ::
  "nat list list \<Rightarrow> nat \<Rightarrow> nat list \<Rightarrow> nat list list \<Rightarrow> (nat \<times> nat) list \<Rightarrow> nat list \<Rightarrow> bool" where
  "dfs_inv a s st its vis seen \<longleftrightarrow>
     length its = length a \<and>
     (\<forall>w < length a. \<exists>c. a ! w = c @ its ! w \<and> (\<forall>x \<in> set c. ekey w x \<in> set vis)) \<and>
     distinct st \<and> set st \<subseteq> set seen \<and> (\<forall>w \<in> set seen. w < length a) \<and>
     (\<forall>w \<in> set seen. w \<notin> set st \<longrightarrow> its ! w = []) \<and>
     distinct seen \<and> length seen = Suc (length vis) \<and> s \<in> set seen \<and>
     (\<forall>k \<in> set vis. \<exists>u v. k = ekey u v \<and> u \<in> set seen \<and> v \<in> set seen)"

text \<open>The nodes of the active path of \<^verbatim>\<open>find_cycle\<close>, from the start node on.\<close>

definition path_nodes :: "nat \<Rightarrow> (nat \<times> nat) list \<Rightarrow> nat list" where
  "path_nodes s es = s # map snd (rev es)"

text \<open>
  The active path of \<^verbatim>\<open>find_cycle\<close> against the stack of \<^verbatim>\<open>edge_dfs\<close>: the stack,
  bottom first, is an initial part of the path.
\<close>

definition scan_rel :: "nat \<Rightarrow> nat list \<Rightarrow> (nat \<times> nat) list \<Rightarrow> nat list \<Rightarrow> nat option \<Rightarrow> bool" where
  "scan_rel s st es active ph \<longleftrightarrow>
     distinct (path_nodes s es) \<and> set active = set (path_nodes s es) \<and>
     (\<exists>zs. path_nodes s es = rev st @ zs) \<and>
     (case ph of None \<Rightarrow> es = [] | Some p \<Rightarrow> es \<noteq> [] \<and> p = snd (hd es))"

text \<open>
  A graph is a forest when it has no cycle: no edge joins two nodes that are still joined
  once that edge is taken away. A spanning forest of a graph has the nodes of the graph,
  only edges of the graph, and joins every two nodes that the graph joins.
\<close>

definition acyclic_rel :: "(nat \<times> nat) set \<Rightarrow> bool" where
  "acyclic_rel R \<longleftrightarrow> (\<forall>u v. (u, v) \<in> R \<longrightarrow> (u, v) \<notin> (R - {(u, v), (v, u)})\<^sup>*)"

definition forest :: "graph \<Rightarrow> bool" where
  "forest g = acyclic_rel (edge_rel g)"

definition spanning_forest :: "graph \<Rightarrow> graph \<Rightarrow> bool" where
  "spanning_forest kg t \<longleftrightarrow>
     length (adj t) = length (adj kg) \<and> edge_rel t \<subseteq> edge_rel kg \<and>
     (edge_rel kg)\<^sup>* \<subseteq> (edge_rel t)\<^sup>* \<and> forest t"

text \<open>The components of a graph: the sets of nodes joined with each other.\<close>

definition components :: "graph \<Rightarrow> nat set set" where
  "components g = (\<lambda>u. (edge_rel g)\<^sup>* `` {u}) ` {..<length (adj g)}"

section \<open>The parser\<close>

lemma float_list_ok: "None \<notin> set l \<Longrightarrow> float_list l = Inr (map the l)"
  by (simp add: float_list_def)

lemma float_list_bad: "None \<in> set l \<Longrightarrow> float_list l = Inl ValueError"
  by (simp add: float_list_def)







lemma parse_line_short: "length a < 6 \<Longrightarrow> \<exists>e. parse_line n a st = Inl e"
  by (auto simp: parse_line_def getitem_def Let_def split: sum.splits)




lemma parse_lines_ill:
  "\<not> list_all (fields_ok 6) ls \<Longrightarrow> \<exists>e. parse_lines n ls kgam kgedgatt = Inl e"
proof (induction ls arbitrary: kgam kgedgatt)
  case Nil
  then show ?case by simp
next
  case (Cons l ls)
  show ?case
  proof (cases "None \<in> set l")
    case True
    from float_list_bad[OF this] show ?thesis by simp
  next
    case nn: False
    show ?thesis
    proof (cases "parse_line n (map the l) (kgam, kgedgatt)")
      case (Inl e)
      with float_list_ok[OF nn] show ?thesis by simp
    next
      case (Inr st)
      with parse_line_short[of "map the l" n "(kgam, kgedgatt)"] have "6 \<le> length l"
        by (cases "length l < 6") auto
      with nn have "fields_ok 6 l" by (simp add: fields_ok_def)
      with Cons.prems have "\<not> list_all (fields_ok 6) ls" by simp
      from Cons.IH[OF this, of "fst st" "snd st"] Inr float_list_ok[OF nn] show ?thesis by simp
    qed
  qed
qed


lemma circuit_parser_header:
  assumes "ls \<noteq> []" "fields_ok 2 (hd ls)" "0 \<le> node_count ls"
  shows "circuit_parser ls =
         (case parse_lines (nat (node_count ls)) (tl ls)
                 (replicate (nat (node_count ls)) (replicate (nat (node_count ls)) 0)) [] of
            Inl e \<Rightarrow> Inl e
          | Inr (kgam, kgedgatt) \<Rightarrow>
              Inr (set_edge_attributes (from_pandas_adjacency kgam) kgedgatt))"
proof -
  from assms(1) obtain l rest where ls: "ls = l # rest" by (cases ls) auto
  with assms have l: "2 \<le> length l" "None \<notin> set l" and n: "0 \<le> py_int (the (l ! 0))"
    by (simp_all add: fields_ok_def node_count_def)
  from l(1) have "getitem (map the l) 0 = Inr (the (l ! 0))"
    "getitem (map the l) 1 = Inr (the (l ! 1))" by (auto simp: getitem_def)
  with n ls float_list_ok[OF l(2)] show ?thesis
    by (simp add: circuit_parser_def Let_def node_count_def)
qed

lemma circuit_parser_bad_header:
  assumes "\<not> (ls \<noteq> [] \<and> fields_ok 2 (hd ls) \<and> 0 \<le> node_count ls)"
  shows "\<exists>e. circuit_parser ls = Inl e"
proof (cases ls)
  case Nil
  then show ?thesis by (simp add: circuit_parser_def)
next
  case (Cons l rest)
  show ?thesis
  proof (cases "None \<in> set l")
    case True
    with Cons float_list_bad[OF True] show ?thesis by (simp add: circuit_parser_def)
  next
    case nn: False
    show ?thesis
    proof (cases "2 \<le> length l")
      case True
      then have g: "getitem (map the l) 0 = Inr (the (l ! 0))"
        "getitem (map the l) 1 = Inr (the (l ! 1))" by (auto simp: getitem_def)
      from True nn assms Cons have "py_int (the (l ! 0)) < 0"
        by (simp add: fields_ok_def node_count_def)
      with g Cons float_list_ok[OF nn] show ?thesis
        by (simp add: circuit_parser_def Let_def)
    next
      case False
      then have "getitem (map the l) 0 = Inl IndexError \<or> getitem (map the l) 1 = Inl IndexError"
        by (auto simp: getitem_def)
      with Cons float_list_ok[OF nn] show ?thesis
        by (auto simp: circuit_parser_def split: sum.splits)
    qed
  qed
qed

lemma circuit_parser_ill_formed:
  assumes "\<not> well_formed ls"
  shows "\<exists>e. circuit_parser ls = Inl e"
proof (cases "ls \<noteq> [] \<and> fields_ok 2 (hd ls) \<and> 0 \<le> node_count ls")
  case True
  with assms have "\<not> list_all (fields_ok 6) (tl ls)" by (simp add: well_formed_def)
  from parse_lines_ill[OF this] obtain e where
    "parse_lines (nat (node_count ls)) (tl ls)
       (replicate (nat (node_count ls)) (replicate (nat (node_count ls)) 0)) [] = Inl e"
    by blast
  with True show ?thesis by (simp add: circuit_parser_header)
next
  case False
  then show ?thesis by (rule circuit_parser_bad_header)
qed

lemma circuit_parser_well_formed:
  assumes "well_formed ls"
  shows "circuit_parser ls =
         (case parse_lines (nat (node_count ls)) (tl ls)
                 (replicate (nat (node_count ls)) (replicate (nat (node_count ls)) 0)) [] of
            Inl e \<Rightarrow> Inl e
          | Inr (kgam, kgedgatt) \<Rightarrow>
              Inr (set_edge_attributes (from_pandas_adjacency kgam) kgedgatt))"
  using assms by (intro circuit_parser_header) (simp_all add: well_formed_def)





section \<open>The triangle circuit\<close>

text \<open>
  Claim C3: for the triangle circuit (nodes 0, 1, 2; branches (0,1) with R = 1, V = 6,
  (1,2) with R = 1, V = 0 and (2,0) with R = 1, V = 0, each with the reference direction
  as written) exactly one fundamental cycle is produced, the solved current is 2 for
  every branch, and the classification is Ordinary. The cycle and the currents are as
  the claim says; the system is shown with its solution, the row of the cycle first,
  then the rows of the nodes 0 and 1. The classification is not that of the circuit
  passed to \<^verbatim>\<open>circuit_type\<close> but that of the module's global \<^verbatim>\<open>kg3\<close>: Ordinary when
  \<^verbatim>\<open>kg3\<close> is the triangle itself, and RC for the same triangle when \<^verbatim>\<open>kg3\<close> is the circuit
  \<open>rc_triangle\<close>.
\<close>

theorem triangle_circuit_classified_by_global:
  "circuit_parser triangle_records = Inr triangle \<and>
   circuit_parser rc_triangle_records = Inr rc_triangle \<and>
   fundamental_cycles triangle = Inr [[(0, 1), (1, 2), (2, 0)]] \<and>
   kg_system triangle = Inr (1, 3, [[- 1, - 1, - 1], [- 1, 1, 0], [1, 0, - 1]], [- 6, 0, 0]) \<and>
   find_kg_edges_weights triangle = Inr [2, 2, 2] \<and>
   get_edge_attributes triangle capacitor = [0, 0, 0] \<and>
   get_edge_attributes triangle self = [0, 0, 0] \<and>
   circuit_type triangle triangle = Some ''Ordinary'' \<and>
   circuit_type rc_triangle triangle = Some ''RC''"
  unfolding triangle_records_def rc_triangle_records_def triangle_def rc_triangle_def
  by code_simp

section \<open>Classification\<close>

text \<open>
  Claim C4 asks that \<^verbatim>\<open>circuit_type\<close> classify the graph passed as its argument. The
  function reads the module's global \<^verbatim>\<open>kg3\<close> instead: with the triangle circuit as
  \<^verbatim>\<open>kg3\<close>, the argument \<open>rc_triangle\<close>, whose branch from 1 to 2 has capacitance 3, is
  classified Ordinary.
\<close>

theorem circuit_type_reads_global:
  "circuit_parser rc_triangle_records = Inr rc_triangle \<and>
   get_edge_attributes rc_triangle capacitor = [0, 0, 3] \<and>
   get_edge_attributes rc_triangle self = [0, 0, 0] \<and>
   circuit_type triangle rc_triangle = Some ''Ordinary'' \<and>
   circuit_type rc_triangle rc_triangle = Some ''RC''"
  unfolding rc_triangle_records_def rc_triangle_def triangle_def
  by code_simp

section \<open>Branch lookup\<close>

lemma get_edge_index_loop_sym:
  "get_edge_index_loop es org dst i = get_edge_index_loop es dst org i"
  by (induction es arbitrary: i) (auto simp: Let_def)

lemma get_edge_index_loop_None:
  "get_edge_index_loop es org dst i = None \<longleftrightarrow> (org, dst) \<notin> set es \<and> (dst, org) \<notin> set es"
  by (induction es arbitrary: i) (auto simp: Let_def)

lemma get_edge_index_loop_Some:
  "get_edge_index_loop es org dst i = Some k \<Longrightarrow>
   i \<le> k \<and> k - i < length es \<and> (es ! (k - i) = (org, dst) \<or> es ! (k - i) = (dst, org))"
proof (induction es arbitrary: i)
  case Nil
  then show ?case by simp
next
  case (Cons e es)
  show ?case
  proof (cases "e = (org, dst) \<or> e = (dst, org)")
    case True
    with Cons.prems have "k = i" by (auto simp: Let_def)
    with True show ?thesis by auto
  next
    case False
    with Cons.prems have "get_edge_index_loop es org dst (i + 1) = Some k"
      by (auto simp: Let_def split: if_splits)
    from Cons.IH[OF this] have "i + 1 \<le> k" "k - (i + 1) < length es"
      "es ! (k - (i + 1)) = (org, dst) \<or> es ! (k - (i + 1)) = (dst, org)" by auto
    moreover from \<open>i + 1 \<le> k\<close> have "k - i = Suc (k - (i + 1))" by simp
    ultimately show ?thesis by auto
  qed
qed

lemma get_edge_index_loop_first:
  "get_edge_index_loop es org dst i = Some k \<Longrightarrow>
   \<forall>j < k - i. es ! j \<noteq> (org, dst) \<and> es ! j \<noteq> (dst, org)"
proof (induction es arbitrary: i)
  case Nil
  then show ?case by simp
next
  case (Cons e es)
  show ?case
  proof (cases "e = (org, dst) \<or> e = (dst, org)")
    case True
    with Cons.prems have "k = i" by (auto simp: Let_def)
    then show ?thesis by simp
  next
    case False
    with Cons.prems have r: "get_edge_index_loop es org dst (i + 1) = Some k"
      by (auto simp: Let_def split: if_splits)
    from get_edge_index_loop_Some[OF r] have ik: "i + 1 \<le> k" by simp
    show ?thesis
    proof (intro allI impI)
      fix j assume j: "j < k - i"
      show "(e # es) ! j \<noteq> (org, dst) \<and> (e # es) ! j \<noteq> (dst, org)"
      proof (cases j)
        case 0
        with False show ?thesis by simp
      next
        case (Suc j')
        with j ik have "j' < k - (i + 1)" by simp
        with Cons.IH[OF r] Suc show ?thesis by simp
      qed
    qed
  qed
qed

text \<open>
  Claim C9, as the code has it: when no branch of the graph matches the unordered pair
  \<open>{org, dst}\<close> the lookup (\<^verbatim>\<open>get_edge_index\<close>, and \<^verbatim>\<open>get_A_coord\<close> alike) raises
  nothing and returns without a value; when a branch matches, the value is the column of
  the first such branch in the order of \<^verbatim>\<open>kg.edges()\<close>, the same for both orders of the
  arguments.
\<close>

theorem get_edge_index_lookup:
  "get_edge_index kg org dst = get_edge_index kg dst org \<and>
   get_A_coord kg org dst = get_edge_index kg org dst \<and>
   (get_edge_index kg org dst = None \<longleftrightarrow>
      (org, dst) \<notin> set (edges kg) \<and> (dst, org) \<notin> set (edges kg)) \<and>
   (\<forall>k. get_edge_index kg org dst = Some k \<longrightarrow>
      k < number_of_edges kg \<and> (edges kg ! k = (org, dst) \<or> edges kg ! k = (dst, org)) \<and>
      (\<forall>j < k. edges kg ! j \<noteq> (org, dst) \<and> edges kg ! j \<noteq> (dst, org)))"
  using get_edge_index_loop_sym[of "edges kg" org dst 0]
    get_edge_index_loop_None[of "edges kg" org dst 0]
    get_edge_index_loop_Some[of "edges kg" org dst 0]
    get_edge_index_loop_first[of "edges kg" org dst 0]
  by (auto simp: get_edge_index_def get_A_coord_def number_of_edges_def)

theorem get_edge_index_lookup_witness:
  "get_edge_index triangle 2 0 = Some 1 \<and> get_edge_index triangle 0 2 = Some 1 \<and>
   get_A_coord triangle 2 0 = Some 1 \<and> 1 < number_of_edges triangle \<and>
   edges triangle ! 1 = (0, 2)"
proof -
  have a: "get_edge_index triangle 0 2 = Some 1" unfolding triangle_def by code_simp
  have b: "edges triangle ! 1 = (0, 2)" unfolding triangle_def by code_simp
  from a b get_edge_index_lookup[of triangle 2 0] show ?thesis by auto
qed

text \<open>
  Against claim C9 as stated: the nodes 0 and 2 of the two-component circuit are not
  joined by a branch, and the lookup returns without a value instead of failing.
\<close>

theorem get_edge_index_miss_returns_none:
  "get_edge_index two_components 0 2 = None \<and> get_A_coord two_components 0 2 = None"
  unfolding two_components_def by code_simp

section \<open>The list of trial graphs\<close>

lemma square_nth: "square m \<Longrightarrow> r < length m \<Longrightarrow> length (m ! r) = length m"
  by (simp add: square_def list_all_length)

lemma with_edge_length [simp]: "length (with_edge m e) = length m"
  by (simp add: with_edge_def Let_def)

lemma with_edge_cell:
  assumes "square m" "fst e < length m" "snd e < length m" "r < length m" "c < length m"
  shows "with_edge m e ! r ! c = (if (r, c) = e \<or> (c, r) = e then 1 else m ! r ! c)"
  using assms square_nth[OF assms(1)]
  by (cases e) (auto simp: with_edge_def Let_def nth_list_update)

lemma set_glam_slice:
  assumes "square m" "fst e < length m" "snd e < length m" "i < length glam"
  shows "\<exists>glam1. set_glam (glam[i := m]) i (fst e) (snd e) = Inr glam1 \<and>
           set_glam glam1 i (snd e) (fst e) = Inr (glam[i := with_edge m e])"
  using assms square_nth[OF assms(1)]
  by (auto simp: set_glam_def with_edge_def Let_def nth_list_update)

lemma graph_list_loop_slices:
  assumes "square m" "in_range (length m) eled" "i + length eled = length glam"
  shows "graph_list_loop m eled i glam = Inr (take i glam @ map (with_edge m) eled)"
  using assms(2,3)
proof (induction eled arbitrary: i glam)
  case Nil
  then show ?case by simp
next
  case (Cons e eled)
  from Cons.prems have e: "fst e < length m" "snd e < length m" and i: "i < length glam"
    and rest: "in_range (length m) eled"
    by (auto simp: in_range_def)
  from set_glam_slice[OF assms(1) e i] obtain glam1 where
    s1: "set_glam (glam[i := m]) i (fst e) (snd e) = Inr glam1" and
    s2: "set_glam glam1 i (snd e) (fst e) = Inr (glam[i := with_edge m e])" by blast
  from Cons.prems have "(i + 1) + length eled = length (glam[i := with_edge m e])" by simp
  from Cons.IH[OF rest this]
  have "graph_list_loop m eled (i + 1) (glam[i := with_edge m e]) =
        Inr (take (i + 1) (glam[i := with_edge m e]) @ map (with_edge m) eled)" .
  moreover have "take (i + 1) (glam[i := with_edge m e]) = take i glam @ [with_edge m e]"
    using i by (simp add: take_Suc_conv_app_nth)
  ultimately show ?case using i s1 s2 by simp
qed

lemma graph_list_glam_slices:
  assumes "square m" "in_range (length m) eled"
  shows "graph_list_glam m eled = Inr (map (with_edge m) eled)"
  using graph_list_loop_slices[OF assms, of 0 "replicate (length eled)
      (replicate (length m) (replicate (length m) 0))"]
  by (simp add: graph_list_glam_def)

text \<open>
  Claim C10: \<^verbatim>\<open>graph_list\<close> gives every eliminated edge its own slice of the array
  \<open>glam\<close>, a copy of the spanning tree's array: after the loop, slice \<open>i\<close> is the
  spanning tree's array with the two cells of edge \<open>i\<close> set to 1 and every other cell
  as in the spanning tree, whatever edges the later iterations inserted, and the
  \<open>i\<close>-th trial graph is built from that slice.
\<close>

theorem graph_list_independent_slices:
  assumes "square kgmstam" "in_range (length kgmstam) eled"
  shows "graph_list_glam kgmstam eled = Inr (map (with_edge kgmstam) eled) \<and>
         graph_list kgmstam eled =
           Inr (map (\<lambda>e. from_pandas_adjacency (with_edge kgmstam e)) eled) \<and>
         (\<forall>e \<in> set eled. \<forall>r < length kgmstam. \<forall>c < length kgmstam.
            with_edge kgmstam e ! r ! c =
              (if (r, c) = e \<or> (c, r) = e then 1 else kgmstam ! r ! c))"
proof -
  have "\<forall>e \<in> set eled. \<forall>r < length kgmstam. \<forall>c < length kgmstam.
            with_edge kgmstam e ! r ! c = (if (r, c) = e \<or> (c, r) = e then 1 else kgmstam ! r ! c)"
    using assms with_edge_cell[of kgmstam] by (auto simp: in_range_def list_all_iff)
  with graph_list_glam_slices[OF assms] show ?thesis by (simp add: graph_list_def comp_def)
qed

theorem graph_list_independent_slices_witness:
  "to_numpy_array (minimum_spanning_tree two_loops) = two_loops_tree \<and>
   Eliminated_Edges (to_numpy_array two_loops) two_loops_tree = [(1, 2), (2, 3)] \<and>
   square two_loops_tree \<and> in_range (length two_loops_tree) [(1, 2), (2, 3)] \<and>
   graph_list_glam two_loops_tree [(1, 2), (2, 3)] =
     Inr [[[0, 1, 1, 1], [1, 0, 1, 0], [1, 1, 0, 0], [1, 0, 0, 0]],
          [[0, 1, 1, 1], [1, 0, 0, 0], [1, 0, 0, 1], [1, 0, 1, 0]]] \<and>
   with_edge two_loops_tree (1, 2) ! 2 ! 3 = two_loops_tree ! 2 ! 3"
proof -
  have a: "square two_loops_tree" by code_simp
  have b: "in_range (length two_loops_tree) [(1, 2), (2, 3)]" by code_simp
  have c: "to_numpy_array (minimum_spanning_tree two_loops) = two_loops_tree" by code_simp
  have d: "Eliminated_Edges (to_numpy_array two_loops) two_loops_tree = [(1, 2), (2, 3)]"
    by code_simp
  have e: "map (with_edge two_loops_tree) [(1, 2), (2, 3)] =
     [[[0, 1, 1, 1], [1, 0, 1, 0], [1, 1, 0, 0], [1, 0, 0, 0]],
      [[0, 1, 1, 1], [1, 0, 0, 0], [1, 0, 0, 1], [1, 0, 1, 0]]]" by code_simp
  have g: "with_edge two_loops_tree (1, 2) ! 2 ! 3 = two_loops_tree ! 2 ! 3" by code_simp
  have "graph_list_glam two_loops_tree [(1, 2), (2, 3)] =
        Inr (map (with_edge two_loops_tree) [(1, 2), (2, 3)])"
    using graph_list_independent_slices[OF a b] by blast
  then have h: "graph_list_glam two_loops_tree [(1, 2), (2, 3)] =
     Inr [[[0, 1, 1, 1], [1, 0, 1, 0], [1, 1, 0, 0], [1, 0, 0, 0]],
          [[0, 1, 1, 1], [1, 0, 0, 0], [1, 0, 0, 1], [1, 0, 1, 0]]]"
    by (simp only: e)
  from a b c d g h show ?thesis by blast
qed

section \<open>Graphs and spanning trees\<close>

lemma adj_ok_iff:
  "adj_ok a \<longleftrightarrow> (\<forall>u < length a. distinct (a ! u) \<and> (\<forall>v \<in> set (a ! u). v < length a \<and> u \<in> set (a ! v)))"
  unfolding adj_ok_def list_all_iff by (simp add: Ball_def)

lemma insert_last_set [simp]: "set (insert_last v ns) = insert v (set ns)"
  by (auto simp: insert_last_def)

lemma insert_last_distinct [simp]: "distinct (insert_last v ns) = distinct ns"
  by (auto simp: insert_last_def)

lemma add_edge_length [simp]: "length (add_edge e a) = length a"
  by (simp add: add_edge_def Let_def)

lemma add_edge_set:
  assumes "fst e < length a" "snd e < length a" "w < length a"
  shows "set (add_edge e a ! w) =
         set (a ! w) \<union> (if w = fst e then {snd e} else {}) \<union> (if w = snd e then {fst e} else {})"
  using assms
  by (cases "w = snd e"; cases "w = fst e") (simp_all add: add_edge_def Let_def)

lemma add_edge_distinct:
  assumes "w < length a"
  shows "distinct (add_edge e a ! w) = distinct (a ! w)"
  using assms
  by (cases "w = snd e"; cases "w = fst e") (simp_all add: add_edge_def Let_def)

lemma fold_add_edge_length [simp]: "length (fold add_edge es a) = length a"
  by (induction es arbitrary: a) auto

lemma fold_add_edge_set:
  assumes "in_range (length a) es" "w < length a"
  shows "set (fold add_edge es a ! w) = set (a ! w) \<union> {v. (w, v) \<in> set es \<or> (v, w) \<in> set es}"
  using assms
proof (induction es arbitrary: a)
  case Nil
  then show ?case by simp
next
  case (Cons e es)
  from Cons.prems have e: "fst e < length a" "snd e < length a" and r: "in_range (length (add_edge e a)) es"
    by (auto simp: in_range_def)
  from Cons.IH[OF r] Cons.prems(2)
  have "set (fold add_edge es (add_edge e a) ! w) =
        set (add_edge e a ! w) \<union> {v. (w, v) \<in> set es \<or> (v, w) \<in> set es}" by simp
  then show ?case using add_edge_set[OF e Cons.prems(2)] by (cases e) auto
qed

lemma fold_add_edge_distinct:
  assumes "w < length a"
  shows "distinct (fold add_edge es a ! w) = distinct (a ! w)"
  using assms by (induction es arbitrary: a) (auto simp: add_edge_distinct)

lemma fold_add_edge_adj_ok:
  assumes "in_range n es"
  shows "adj_ok (fold add_edge es (replicate n []))"
  unfolding adj_ok_iff
proof (intro allI impI conjI ballI)
  fix u assume u: "u < length (fold add_edge es (replicate n []))"
  then have un: "u < n" by simp
  show "distinct (fold add_edge es (replicate n []) ! u)"
    using un by (simp add: fold_add_edge_distinct)
  fix v assume v: "v \<in> set (fold add_edge es (replicate n []) ! u)"
  with un assms have uv: "(u, v) \<in> set es \<or> (v, u) \<in> set es"
    by (simp add: fold_add_edge_set)
  with assms have vn: "v < n" by (auto simp: in_range_def list_all_iff)
  then show "v < length (fold add_edge es (replicate n []))" by simp
  from uv vn assms show "u \<in> set (fold add_edge es (replicate n []) ! v)"
    by (auto simp: fold_add_edge_set)
qed

lemma nonzero_in_range: "square m \<Longrightarrow> in_range (length m) (nonzero m)"
  by (auto simp: in_range_def nonzero_def list_all_iff square_def)

lemma from_pandas_adjacency_ok: "square m \<Longrightarrow> graph_ok (from_pandas_adjacency m)"
  by (simp add: graph_ok_def from_pandas_adjacency_def fold_add_edge_adj_ok nonzero_in_range)

lemma set_edge_attributes_adj [simp]: "adj (set_edge_attributes g vs) = adj g"
  by (induction g vs rule: set_edge_attributes.induct) (auto simp: has_edge_def)

lemma square_update:
  assumes "square m"
  shows "square (m[x := (m ! x)[y := v]])"
proof (cases "x < length m")
  case True
  with assms show ?thesis
    by (auto simp: square_def list_all_length nth_list_update)
next
  case False
  with assms show ?thesis by (simp add: not_less list_update_beyond)
qed

lemma set_kgam_square:
  "set_kgam n kgam x y = Inr kgam' \<Longrightarrow> square kgam \<Longrightarrow> square kgam' \<and> length kgam' = length kgam"
  by (auto simp: set_kgam_def square_update split: sum.splits)

lemma parse_line_square:
  assumes "parse_line n a st = Inr st'" "square (fst st)"
  shows "square (fst st') \<and> length (fst st') = length (fst st)"
proof -
  from assms(1) obtain x y where k: "set_kgam n (fst st) x y = Inr (fst st')"
    by (auto simp: parse_line_def Let_def split: sum.splits)
  from set_kgam_square[OF k assms(2)] show ?thesis .
qed

lemma parse_lines_square:
  "parse_lines n ls kgam kgedgatt = Inr (kgam', d) \<Longrightarrow> square kgam \<Longrightarrow>
   square kgam' \<and> length kgam' = length kgam"
proof (induction ls arbitrary: kgam kgedgatt)
  case Nil
  then show ?case by simp
next
  case (Cons l ls)
  from Cons.prems(1) obtain arrnum st where a: "float_list l = Inr arrnum"
    and st: "parse_line n arrnum (kgam, kgedgatt) = Inr st"
    and r: "parse_lines n ls (fst st) (snd st) = Inr (kgam', d)"
    by (auto split: sum.splits)
  from parse_line_square[OF st] Cons.prems(2)
  have "square (fst st)" "length (fst st) = length kgam" by simp_all
  with Cons.IH[OF r] show ?case by simp
qed

lemma circuit_parser_graph_ok:
  assumes "circuit_parser ls = Inr kg"
  shows "graph_ok kg \<and> int (length (adj kg)) = node_count ls"
proof -
  let ?n = "nat (node_count ls)"
  have wf: "well_formed ls"
    using assms circuit_parser_ill_formed[of ls] by (cases "well_formed ls") auto
  with assms obtain kgam d where p: "parse_lines ?n (tl ls) (replicate ?n (replicate ?n 0)) [] = Inr (kgam, d)"
    and kg: "kg = set_edge_attributes (from_pandas_adjacency kgam) d"
    by (auto simp: circuit_parser_well_formed split: sum.splits)
  have "square (replicate ?n (replicate ?n (0::int)))" by (simp add: square_def list_all_iff)
  from parse_lines_square[OF p this] have "square kgam" "length kgam = ?n" by auto
  with from_pandas_adjacency_ok[of kgam] kg wf show ?thesis
    by (simp add: graph_ok_def from_pandas_adjacency_def well_formed_def)
qed


lemma edges_set:
  "(u, v) \<in> set (edges g) \<longleftrightarrow> u < length (adj g) \<and> v \<in> set (adj g ! u) \<and> u \<le> v"
  by (auto simp: edges_def)

lemma graph_okD:
  assumes "graph_ok g" "u < length (adj g)" "v \<in> set (adj g ! u)"
  shows "v < length (adj g)" "u \<in> set (adj g ! v)"
  using assms unfolding graph_ok_def adj_ok_iff by blast+

lemma graph_ok_has_edge_sym: "graph_ok g \<Longrightarrow> has_edge g u v \<Longrightarrow> has_edge g v u"
  using graph_okD[of g u v] by (simp add: has_edge_def)

lemma edges_in_range:
  assumes "graph_ok g"
  shows "in_range (length (adj g)) (edges g)"
proof -
  have "fst e < length (adj g) \<and> snd e < length (adj g)" if "e \<in> set (edges g)" for e
  proof -
    obtain u v where e: "e = (u, v)" by (cases e)
    with that have "u < length (adj g)" "v \<in> set (adj g ! u)" by (simp_all add: edges_set)
    with graph_okD(1)[OF assms this] e show ?thesis by simp
  qed
  then show ?thesis by (simp add: in_range_def list_all_iff)
qed

lemma kruskal_subset: "set (kruskal_mst_edges es st) \<subseteq> set es"
  by (induction es arbitrary: st) auto

lemma in_range_subset: "in_range n es \<Longrightarrow> set ks \<subseteq> set es \<Longrightarrow> in_range n ks"
  by (auto simp: in_range_def list_all_iff)

lemma minimum_spanning_tree_length [simp]:
  "length (adj (minimum_spanning_tree kg)) = length (adj kg)"
  by (simp add: minimum_spanning_tree_def)

lemma minimum_spanning_tree_has_edge:
  assumes "graph_ok kg"
  shows "has_edge (minimum_spanning_tree kg) u v \<longleftrightarrow>
         u < length (adj kg) \<and>
         ((u, v) \<in> set (kruskal_mst_edges (edges kg) [0..<length (adj kg)]) \<or>
          (v, u) \<in> set (kruskal_mst_edges (edges kg) [0..<length (adj kg)]))"
proof -
  have "in_range (length (adj kg)) (kruskal_mst_edges (edges kg) [0..<length (adj kg)])"
    using edges_in_range[OF assms] kruskal_subset in_range_subset by blast
  then show ?thesis
    by (auto simp: has_edge_def minimum_spanning_tree_def fold_add_edge_set)
qed

lemma minimum_spanning_tree_ok: "graph_ok kg \<Longrightarrow> graph_ok (minimum_spanning_tree kg)"
  using edges_in_range[of kg] kruskal_subset in_range_subset
  by (auto simp: graph_ok_def minimum_spanning_tree_def intro!: fold_add_edge_adj_ok)

lemma minimum_spanning_tree_subgraph:
  assumes "graph_ok kg"
  shows "edge_rel (minimum_spanning_tree kg) \<subseteq> edge_rel kg"
proof
  fix p assume "p \<in> edge_rel (minimum_spanning_tree kg)"
  then obtain u v where p: "p = (u, v)" and h: "has_edge (minimum_spanning_tree kg) u v"
    by (auto simp: edge_rel_def)
  from h minimum_spanning_tree_has_edge[OF assms] kruskal_subset
  have "(u, v) \<in> set (edges kg) \<or> (v, u) \<in> set (edges kg)" by blast
  then have "has_edge kg u v \<or> has_edge kg v u"
    by (auto simp: edges_set has_edge_def)
  with graph_ok_has_edge_sym[OF assms] have "has_edge kg u v" by blast
  with p show "p \<in> edge_rel kg" by (simp add: edge_rel_def)
qed

lemma connected_mono:
  assumes "edge_rel g \<subseteq> edge_rel h" "length (adj g) = length (adj h)" "connected g"
  shows "connected h"
  unfolding connected_def
proof (intro conjI allI impI)
  from assms(2,3) show "0 < length (adj h)" by (simp add: connected_def)
next
  fix u v assume "u < length (adj h)" "v < length (adj h)"
  with assms(2,3) have "(u, v) \<in> (edge_rel g)\<^sup>*" by (simp add: connected_def)
  with rtrancl_mono[OF assms(1)] show "(u, v) \<in> (edge_rel h)\<^sup>*" by blast
qed

section \<open>The reduced system\<close>

text \<open>
  Claim C5 asks that the reduced system be the full system without the rows of the
  variable-weight cycles and without the columns of the variable-weight branches. On
  the circuit \<open>two_loops\<close> (as the parameter and as the module's \<^verbatim>\<open>kg3\<close>) the
  variable-weight cycles are the rows 0 and 1 and the variable-weight branches the
  columns 3 and 4 of a system of five rows. The loop \<^verbatim>\<open>for index in e\<close> deletes the
  rows of the whole list \<open>e\<close> once per element, which leaves one row, the last one,
  instead of three; the column loop then deletes column 3 and looks for column 4 in
  the four columns left, which is IndexError.
\<close>

theorem find_kg_edges_weights_RC_two_loops:
  "circuit_parser two_loops_records = Inr two_loops \<and>
   kg_system two_loops =
     Inr (2, 5,
          [[- 1, 1, 0, - 1, 0], [0, - 1, 1, 0, - 1], [- 1, - 1, - 1, 0, 0],
           [1, 0, 0, - 1, 0], [0, 1, 0, 1, - 1]],
          [- 6, 0, 0, 0, 0]) \<and>
   seperate_const_variable_cycle_and_loop two_loops =
     Inr \<lparr>variable_weight_edge = [(1, 2), (2, 3)],
          const_weight_edge = [(0, 1), (0, 2), (0, 3)],
          const_weight_cycle = [],
          variable_weight_cycle = [[(0, 1), (1, 2), (2, 0)], [(0, 2), (2, 3), (3, 0)]],
          variable_weight_cycle_index = [0, 1]\<rparr> \<and>
   get_edge_index two_loops 1 2 = Some 3 \<and> get_edge_index two_loops 2 3 = Some 4 \<and>
   rc_delete_rows [0, 1] [0, 1]
     [[- 1, 1, 0, - 1, 0], [0, - 1, 1, 0, - 1], [- 1, - 1, - 1, 0, 0],
      [1, 0, 0, - 1, 0], [0, 1, 0, 1, - 1]]
     [- 6, 0, 0, 0, 0] = Inr ([[0, 1, 0, 1, - 1]], [0]) \<and>
   rc_system two_loops two_loops = Inl IndexError \<and>
   find_kg_edges_weights_RC two_loops two_loops = Inl IndexError"
  by code_simp

section \<open>The partition\<close>

text \<open>
  Against claim C6 as stated: the circuit of one branch is connected, it has no
  fundamental cycle, and its branch is put in neither list.
\<close>

theorem single_branch_in_no_list:
  "circuit_parser single_branch_records = Inr single_branch \<and>
   connected single_branch \<and>
   edges single_branch = [(0, 1)] \<and>
   seperate_const_variable_cycle_and_loop single_branch =
     Inr \<lparr>variable_weight_edge = [], const_weight_edge = [], const_weight_cycle = [],
          variable_weight_cycle = [], variable_weight_cycle_index = []\<rparr>"
proof -
  have "(u, v) \<in> (edge_rel single_branch)\<^sup>*" if "u < 2" "v < 2" for u v
  proof -
    have e: "(0, 1) \<in> edge_rel single_branch" "(1, 0) \<in> edge_rel single_branch"
      by (simp_all add: edge_rel_def has_edge_def single_branch_def)
    from that have "(u = 0 \<or> u = 1) \<and> (v = 0 \<or> v = 1)" by auto
    with e show ?thesis by auto
  qed
  then have "connected single_branch"
    by (simp add: connected_def single_branch_def)
  moreover have "circuit_parser single_branch_records = Inr single_branch \<and>
   edges single_branch = [(0, 1)] \<and>
   seperate_const_variable_cycle_and_loop single_branch =
     Inr \<lparr>variable_weight_edge = [], const_weight_edge = [], const_weight_cycle = [],
          variable_weight_cycle = [], variable_weight_cycle_index = []\<rparr>"
    by code_simp
  ultimately show ?thesis by blast
qed

lemma sep_edge_Inr:
  assumes "sep_edge kg e (v, vw, cw) = Inr (v', vw', cw')"
  shows "(\<exists>d. get_edge_data kg (fst e) (snd e) = Inr d) \<and>
         v' = (v \<or> edge_capacitor kg e \<noteq> 0) \<and>
         vw' = (if edge_capacitor kg e \<noteq> 0 \<and> canonical kg e \<notin> set vw
                then vw @ [canonical kg e] else vw) \<and>
         cw' = (if edge_capacitor kg e = 0 \<and> canonical kg e \<notin> set cw
                then cw @ [canonical kg e] else cw)"
proof (cases "get_edge_data kg (fst e) (snd e)")
  case (Inl err)
  with assms show ?thesis by (simp add: sep_edge_def)
next
  case (Inr d)
  with assms show ?thesis
    by (simp add: sep_edge_def canonical_def edge_capacitor_def Let_def split: if_splits)
qed

lemma sep_cycle_Inr:
  assumes "sep_cycle kg cycle (v, vw, cw) = Inr (v', vw', cw')"
  shows "(\<forall>e \<in> set cycle. \<exists>d. get_edge_data kg (fst e) (snd e) = Inr d) \<and>
         v' = (v \<or> variable_cycle kg cycle) \<and>
         set vw' = set vw \<union> canonical kg ` {e \<in> set cycle. edge_capacitor kg e \<noteq> 0} \<and>
         set cw' = set cw \<union> canonical kg ` {e \<in> set cycle. edge_capacitor kg e = 0} \<and>
         (distinct vw \<longrightarrow> distinct vw') \<and> (distinct cw \<longrightarrow> distinct cw')"
  using assms
proof (induction cycle arbitrary: v vw cw)
  case Nil
  then show ?case by (simp add: variable_cycle_def)
next
  case (Cons e cycle)
  from Cons.prems obtain v1 vw1 cw1 where
    s1: "sep_edge kg e (v, vw, cw) = Inr (v1, vw1, cw1)" and
    s2: "sep_cycle kg cycle (v1, vw1, cw1) = Inr (v', vw', cw')"
    by (auto split: sum.splits)
  note a = sep_edge_Inr[OF s1] and b = Cons.IH[OF s2]
  from a have v1: "v1 = (v \<or> edge_capacitor kg e \<noteq> 0)" by blast
  from a have svw: "set vw1 = set vw \<union> canonical kg ` {x \<in> {e}. edge_capacitor kg x \<noteq> 0}"
    by auto
  from a have scw: "set cw1 = set cw \<union> canonical kg ` {x \<in> {e}. edge_capacitor kg x = 0}"
    by auto
  from a have d: "distinct vw \<longrightarrow> distinct vw1" "distinct cw \<longrightarrow> distinct cw1" by auto
  have 1: "\<forall>x \<in> set (e # cycle). \<exists>d. get_edge_data kg (fst x) (snd x) = Inr d"
    using a b by auto
  have 2: "v' = (v \<or> variable_cycle kg (e # cycle))"
    using b v1 by (auto simp: variable_cycle_def)
  have 3: "set vw' = set vw \<union> canonical kg ` {x \<in> set (e # cycle). edge_capacitor kg x \<noteq> 0}"
    using b svw by auto
  have 4: "set cw' = set cw \<union> canonical kg ` {x \<in> set (e # cycle). edge_capacitor kg x = 0}"
    using b scw by auto
  from 1 2 3 4 b d show ?case by blast
qed

lemma sep_rows_Inr:
  assumes "sep_rows kg fcl i s = Inr s'"
  shows "(\<forall>e \<in> cycle_branches fcl. \<exists>d. get_edge_data kg (fst e) (snd e) = Inr d) \<and>
         set (variable_weight_edge s') = set (variable_weight_edge s) \<union>
            canonical kg ` {e \<in> cycle_branches fcl. edge_capacitor kg e \<noteq> 0} \<and>
         set (const_weight_edge s') = set (const_weight_edge s) \<union>
            canonical kg ` {e \<in> cycle_branches fcl. edge_capacitor kg e = 0} \<and>
         (distinct (variable_weight_edge s) \<longrightarrow> distinct (variable_weight_edge s')) \<and>
         (distinct (const_weight_edge s) \<longrightarrow> distinct (const_weight_edge s')) \<and>
         const_weight_cycle s' = const_weight_cycle s @ filter (\<lambda>c. \<not> variable_cycle kg c) fcl \<and>
         variable_weight_cycle s' = variable_weight_cycle s @ filter (variable_cycle kg) fcl \<and>
         variable_weight_cycle_index s' = variable_weight_cycle_index s @
            filter (\<lambda>k. variable_cycle kg (fcl ! (k - i))) [i..<i + length fcl]"
  using assms
proof (induction fcl arbitrary: i s)
  case Nil
  then show ?case by (simp add: cycle_branches_def)
next
  case (Cons cycle fcl)
  from Cons.prems obtain v vw cw where
    c: "sep_cycle kg cycle (False, variable_weight_edge s, const_weight_edge s) = Inr (v, vw, cw)"
    by (auto split: sum.splits)
  note a = sep_cycle_Inr[OF c]
  from a have v: "v = variable_cycle kg cycle" by simp
  define s1 where "s1 = (if v
     then s\<lparr>variable_weight_edge := vw, const_weight_edge := cw,
            variable_weight_cycle := variable_weight_cycle s @ [cycle],
            variable_weight_cycle_index := variable_weight_cycle_index s @ [i]\<rparr>
     else s\<lparr>variable_weight_edge := vw, const_weight_edge := cw,
            const_weight_cycle := const_weight_cycle s @ [cycle]\<rparr>)"
  from Cons.prems c have r: "sep_rows kg fcl (i + 1) s1 = Inr s'"
    by (cases v) (simp_all add: s1_def)
  note b = Cons.IH[OF r]
  have s1f: "variable_weight_edge s1 = vw" "const_weight_edge s1 = cw"
    "const_weight_cycle s1 = const_weight_cycle s @ filter (\<lambda>c. \<not> variable_cycle kg c) [cycle]"
    "variable_weight_cycle s1 = variable_weight_cycle s @ filter (variable_cycle kg) [cycle]"
    "variable_weight_cycle_index s1 = variable_weight_cycle_index s @ (if v then [i] else [])"
    using v by (auto simp: s1_def)
  have cb: "cycle_branches (cycle # fcl) = set cycle \<union> cycle_branches fcl"
    by (simp add: cycle_branches_def)
  have 1: "\<forall>e \<in> cycle_branches (cycle # fcl). \<exists>d. get_edge_data kg (fst e) (snd e) = Inr d"
    using a b cb by auto
  have 2: "set (variable_weight_edge s') = set (variable_weight_edge s) \<union>
            canonical kg ` {e \<in> cycle_branches (cycle # fcl). edge_capacitor kg e \<noteq> 0}"
    using a b s1f(1) cb by auto
  have 3: "set (const_weight_edge s') = set (const_weight_edge s) \<union>
            canonical kg ` {e \<in> cycle_branches (cycle # fcl). edge_capacitor kg e = 0}"
    using a b s1f(2) cb by auto
  have 4: "distinct (variable_weight_edge s) \<longrightarrow> distinct (variable_weight_edge s')"
    "distinct (const_weight_edge s) \<longrightarrow> distinct (const_weight_edge s')"
    using a b s1f(1,2) by auto
  have 5: "const_weight_cycle s' =
           const_weight_cycle s @ filter (\<lambda>c. \<not> variable_cycle kg c) (cycle # fcl)"
    "variable_weight_cycle s' = variable_weight_cycle s @ filter (variable_cycle kg) (cycle # fcl)"
    using b s1f(3,4) by auto
  have "[i..<i + length (cycle # fcl)] = i # [Suc i..<Suc i + length fcl]"
    using upt_conv_Cons[of i "Suc i + length fcl"] by simp
  moreover have "filter (\<lambda>k. variable_cycle kg ((cycle # fcl) ! (k - i))) [Suc i..<Suc i + length fcl] =
        filter (\<lambda>k. variable_cycle kg (fcl ! (k - Suc i))) [Suc i..<Suc i + length fcl]"
    by (rule filter_cong) (auto simp: nth_Cons')
  ultimately have 6: "variable_weight_cycle_index s' = variable_weight_cycle_index s @
            filter (\<lambda>k. variable_cycle kg ((cycle # fcl) ! (k - i))) [i..<i + length (cycle # fcl)]"
    using b s1f(5) v by auto
  from 1 2 3 4 5 6 show ?case by blast
qed

lemma canonical_key:
  assumes "get_edge_data kg (fst e) (snd e) = Inr d"
  shows "map_of (att kg) (ekey (fst (canonical kg e)) (snd (canonical kg e))) = Some d"
proof -
  have "ekey (snd e) (fst e) = ekey (fst e) (snd e)" by (auto simp: ekey_def)
  with assms show ?thesis
    by (auto simp: canonical_def get_edge_data_def split: if_splits option.splits)
qed

lemma canonical_capacitor:
  assumes "get_edge_data kg (fst e) (snd e) = Inr d"
    and "get_edge_data kg (fst e') (snd e') = Inr d'"
    and "canonical kg e = canonical kg e'"
  shows "edge_capacitor kg e = edge_capacitor kg e'"
  using canonical_key[OF assms(1)] canonical_key[OF assms(2)] assms
  by (simp add: edge_capacitor_def)

text \<open>
  Claim C6, as the code has it: the partitioner visits the branches of the fundamental
  cycles only. Whenever it returns, every branch that lies on a fundamental cycle is, in
  its canonical orientation, in exactly one of the two branch lists, the constant one
  if and only if its capacitance is zero, and no list holds a pair twice; the lists hold
  nothing else, so a branch on no fundamental cycle is in neither. Every fundamental
  cycle is in exactly one of the two cycle lists, in the variable one if and only if one
  of its branches has nonzero capacitance, and the index list holds the positions of
  the variable-weight cycles.
\<close>

theorem partition_of_cycle_branches:
  assumes "fundamental_cycles kg = Inr fcl"
    and "seperate_const_variable_cycle_and_loop kg = Inr s"
  shows "distinct (variable_weight_edge s) \<and> distinct (const_weight_edge s) \<and>
         set (variable_weight_edge s) \<inter> set (const_weight_edge s) = {} \<and>
         set (const_weight_edge s) =
           canonical kg ` {e \<in> cycle_branches fcl. edge_capacitor kg e = 0} \<and>
         set (variable_weight_edge s) =
           canonical kg ` {e \<in> cycle_branches fcl. edge_capacitor kg e \<noteq> 0} \<and>
         const_weight_cycle s = filter (\<lambda>c. \<not> variable_cycle kg c) fcl \<and>
         variable_weight_cycle s = filter (variable_cycle kg) fcl \<and>
         variable_weight_cycle_index s =
           filter (\<lambda>k. variable_cycle kg (fcl ! k)) [0..<length fcl]"
proof -
  from assms have r: "sep_rows kg fcl 0
            \<lparr>variable_weight_edge = [], const_weight_edge = [], const_weight_cycle = [],
             variable_weight_cycle = [], variable_weight_cycle_index = []\<rparr> = Inr s"
    by (simp add: seperate_const_variable_cycle_and_loop_def)
  note a = sep_rows_Inr[OF r]
  from a have d: "\<forall>e \<in> cycle_branches fcl. \<exists>d. get_edge_data kg (fst e) (snd e) = Inr d"
    by blast
  from a have v: "set (variable_weight_edge s) =
           canonical kg ` {e \<in> cycle_branches fcl. edge_capacitor kg e \<noteq> 0}" by simp
  from a have c: "set (const_weight_edge s) =
           canonical kg ` {e \<in> cycle_branches fcl. edge_capacitor kg e = 0}" by simp
  have "set (variable_weight_edge s) \<inter> set (const_weight_edge s) = {}"
  proof (rule ccontr)
    assume "set (variable_weight_edge s) \<inter> set (const_weight_edge s) \<noteq> {}"
    then obtain t where "t \<in> set (variable_weight_edge s)" "t \<in> set (const_weight_edge s)"
      by blast
    with v c obtain e e' where e: "e \<in> cycle_branches fcl" "edge_capacitor kg e \<noteq> 0"
      "t = canonical kg e" and e': "e' \<in> cycle_branches fcl" "edge_capacitor kg e' = 0"
      "t = canonical kg e'" by auto
    from d e(1) e'(1) obtain x x' where "get_edge_data kg (fst e) (snd e) = Inr x"
      "get_edge_data kg (fst e') (snd e') = Inr x'" by blast
    from canonical_capacitor[OF this] e e' show False by simp
  qed
  with a v c show ?thesis by simp
qed

theorem partition_of_cycle_branches_witness:
  "fundamental_cycles two_loops = Inr two_loops_cycles \<and>
   seperate_const_variable_cycle_and_loop two_loops = Inr two_loops_separation \<and>
   set (variable_weight_edge two_loops_separation) \<inter>
     set (const_weight_edge two_loops_separation) = {} \<and>
   set (const_weight_edge two_loops_separation) =
     canonical two_loops ` {e \<in> cycle_branches two_loops_cycles. edge_capacitor two_loops e = 0} \<and>
   variable_weight_cycle_index two_loops_separation =
     filter (\<lambda>k. variable_cycle two_loops (two_loops_cycles ! k)) [0..<length two_loops_cycles]"
proof -
  have a: "fundamental_cycles two_loops = Inr two_loops_cycles"
    by code_simp
  have b: "seperate_const_variable_cycle_and_loop two_loops = Inr two_loops_separation"
    by code_simp
  from partition_of_cycle_branches[OF a b] a b show ?thesis by blast
qed

section \<open>The rows of the fundamental cycles\<close>

lemma get_edge_index_found:
  assumes "graph_ok kg" "has_edge kg org dst"
  shows "\<exists>c. get_edge_index kg org dst = Some c \<and> c < number_of_edges kg"
proof -
  from assms(2) have h: "org < length (adj kg)" "dst \<in> set (adj kg ! org)"
    by (simp_all add: has_edge_def)
  from graph_okD[OF assms(1) h] have h': "dst < length (adj kg)" "org \<in> set (adj kg ! dst)" .
  have "(org, dst) \<in> set (edges kg) \<or> (dst, org) \<in> set (edges kg)"
    using h h' by (cases "org \<le> dst") (auto simp: edges_set)
  then have "get_edge_index kg org dst \<noteq> None"
    using get_edge_index_loop_None[of "edges kg" org dst 0] by (auto simp: get_edge_index_def)
  then obtain c where c: "get_edge_index kg org dst = Some c" by blast
  with get_edge_index_loop_Some[of "edges kg" org dst 0 c]
  have "c < number_of_edges kg" by (simp add: get_edge_index_def number_of_edges_def)
  with c show ?thesis by blast
qed

lemma get_edge_data_has_edge: "get_edge_data kg org dst = Inr d \<Longrightarrow> has_edge kg org dst"
  by (auto simp: get_edge_data_def split: if_splits)

lemma set_A_Inr:
  assumes "set_A A i cor res = Inr A'"
  shows "i < length A \<and> length A' = length A \<and> (\<forall>r. r \<noteq> i \<longrightarrow> A' ! r = A ! r) \<and>
         length (A' ! i) = length (A ! i)"
  using assms by (auto simp: set_A_def split: if_splits option.splits)

lemma set_A_Some:
  assumes "set_A A i (Some c) res = Inr A'"
  shows "c < length (A ! i) \<and> A' = A[i := (A ! i)[c := res]]"
  using assms by (auto simp: set_A_def split: if_splits)

lemma kvl_edge_Inr:
  assumes "graph_ok kg" "kvl_edge kg i e (v, A) = Inr (v', A')"
  shows "\<exists>c. column kg e = Some c \<and> i < length A \<and> c < length (A ! i) \<and>
             v' = v + signed_battery kg e \<and>
             A' = A[i := (A ! i)[c := signed_resistor kg e]]"
proof -
  from assms(2) obtain d where d: "get_edge_data kg (fst e) (snd e) = Inr d"
    by (auto simp: kvl_edge_def Let_def split: sum.splits)
  from get_edge_index_found[OF assms(1) get_edge_data_has_edge[OF d]]
  obtain c where c: "get_edge_index kg (fst e) (snd e) = Some c" by blast
  show ?thesis
  proof (cases "isstraight (fst e) (snd e) (suggested_dir d)")
    case True
    with assms(2) d c have s: "set_A A i (Some c) (- resistor d) = Inr A'" and
      v: "v' = v - battery d"
      by (auto simp: kvl_edge_def Let_def split: sum.splits)
    from set_A_Inr[OF s] set_A_Some[OF s] v True d c show ?thesis
      by (simp add: column_def signed_battery_def signed_resistor_def)
  next
    case False
    with assms(2) d c have s: "set_A A i (Some c) (resistor d) = Inr A'" and
      v: "v' = v + battery d"
      by (auto simp: kvl_edge_def Let_def split: sum.splits)
    from set_A_Inr[OF s] set_A_Some[OF s] v False d c show ?thesis
      by (simp add: column_def signed_battery_def signed_resistor_def)
  qed
qed

lemma kvl_cycle_Inr:
  assumes "graph_ok kg" "kvl_cycle kg i cycle (v, A) = Inr (v', A')"
  shows "v' = v + sum_list (map (signed_battery kg) cycle) \<and> length A' = length A \<and>
         (\<forall>r. r \<noteq> i \<longrightarrow> A' ! r = A ! r) \<and> cycle_row kg cycle (A ! i) (A' ! i)"
  using assms(2)
proof (induction cycle arbitrary: v A)
  case Nil
  then show ?case by (simp add: cycle_row_def)
next
  case (Cons e cycle)
  from Cons.prems obtain v1 A1 where
    s1: "kvl_edge kg i e (v, A) = Inr (v1, A1)" and
    s2: "kvl_cycle kg i cycle (v1, A1) = Inr (v', A')"
    by (auto split: sum.splits)
  from kvl_edge_Inr[OF assms(1) s1] obtain c0 where
    c0: "column kg e = Some c0" and i: "i < length A" and c0l: "c0 < length (A ! i)" and
    v1: "v1 = v + signed_battery kg e" and
    A1: "A1 = A[i := (A ! i)[c0 := signed_resistor kg e]]" by blast
  note b = Cons.IH[OF s2]
  from b have row: "cycle_row kg cycle (A1 ! i) (A' ! i)" by blast
  have A1i: "A1 ! i = (A ! i)[c0 := signed_resistor kg e]" using A1 i by simp
  have 1: "v' = v + sum_list (map (signed_battery kg) (e # cycle))" using b v1 by simp
  have 2: "length A' = length A" using b A1 by simp
  have 3: "\<forall>r. r \<noteq> i \<longrightarrow> A' ! r = A ! r" using b A1 by simp
  have 4: "cycle_row kg (e # cycle) (A ! i) (A' ! i)"
    unfolding cycle_row_def
  proof (intro conjI allI impI)
    show "length (A' ! i) = length (A ! i)" using row A1i by (simp add: cycle_row_def)
  next
    fix p c
    assume p: "p < length (e # cycle)"
      and h: "column kg ((e # cycle) ! p) = Some c \<and>
        (\<forall>q. p < q \<and> q < length (e # cycle) \<longrightarrow> column kg ((e # cycle) ! q) \<noteq> Some c)"
    show "A' ! i ! c = signed_resistor kg ((e # cycle) ! p)"
    proof (cases p)
      case 0
      with h c0 have cc: "c = c0" by simp
      have "\<forall>x \<in> set cycle. column kg x \<noteq> Some c"
      proof
        fix x assume "x \<in> set cycle"
        then obtain q where q: "q < length cycle" "cycle ! q = x" by (auto simp: in_set_conv_nth)
        with h 0 have "column kg ((e # cycle) ! Suc q) \<noteq> Some c" by auto
        with q show "column kg x \<noteq> Some c" by simp
      qed
      with row have "A' ! i ! c = A1 ! i ! c" by (simp add: cycle_row_def)
      with A1i cc c0l 0 show ?thesis by simp
    next
      case (Suc p')
      with p have p': "p' < length cycle" by simp
      from h Suc have "column kg (cycle ! p') = Some c" by simp
      moreover have "\<forall>q. p' < q \<and> q < length cycle \<longrightarrow> column kg (cycle ! q) \<noteq> Some c"
      proof (intro allI impI)
        fix q assume "p' < q \<and> q < length cycle"
        with h Suc have "column kg ((e # cycle) ! Suc q) \<noteq> Some c" by auto
        then show "column kg (cycle ! q) \<noteq> Some c" by simp
      qed
      ultimately have "A' ! i ! c = signed_resistor kg (cycle ! p')"
        using row p' by (simp add: cycle_row_def)
      with Suc show ?thesis by simp
    qed
  next
    fix c assume h: "\<forall>x \<in> set (e # cycle). column kg x \<noteq> Some c"
    with c0 have ne: "c \<noteq> c0" by auto
    from h row have "A' ! i ! c = A1 ! i ! c" by (simp add: cycle_row_def)
    with A1i ne show "A' ! i ! c = A ! i ! c" by simp
  qed
  from 1 2 3 4 show ?case by blast
qed

lemma set_B_Inr:
  "set_B B i v = Inr B' \<Longrightarrow> i < length B \<and> B' = B[i := v]"
  by (auto simp: set_B_def split: if_splits)

lemma kvl_rows_Inr:
  assumes "graph_ok kg" "kvl_rows kg fcl i A B = Inr (i', A', B')"
  shows "i' = i + length fcl \<and> length A' = length A \<and> length B' = length B \<and>
         (\<forall>r < i. A' ! r = A ! r \<and> B' ! r = B ! r) \<and>
         (\<forall>r \<ge> i + length fcl. A' ! r = A ! r) \<and>
         (\<forall>k < length fcl. i + k < length B) \<and>
         (\<forall>k < length fcl.
            B' ! (i + k) = sum_list (map (signed_battery kg) (fcl ! k)) \<and>
            cycle_row kg (fcl ! k) (A ! (i + k)) (A' ! (i + k)))"
  using assms(2)
proof (induction fcl arbitrary: i A B)
  case Nil
  then show ?case by simp
next
  case (Cons cycle fcl)
  from Cons.prems obtain v A1 B1 where
    s1: "kvl_cycle kg i cycle (0, A) = Inr (v, A1)" and
    s2: "set_B B i v = Inr B1" and
    s3: "kvl_rows kg fcl (i + 1) A1 B1 = Inr (i', A', B')"
    by (auto split: sum.splits)
  note a = kvl_cycle_Inr[OF assms(1) s1] and b = set_B_Inr[OF s2] and c = Cons.IH[OF s3]
  from a have v: "v = sum_list (map (signed_battery kg) cycle)" by simp
  from a have A1o: "\<And>r. r \<noteq> i \<Longrightarrow> A1 ! r = A ! r" by blast
  from a have row: "cycle_row kg cycle (A ! i) (A1 ! i)" by blast
  from c have keep: "\<And>r. r < i + 1 \<Longrightarrow> A' ! r = A1 ! r \<and> B' ! r = B1 ! r" by blast
  from c have rest: "\<And>k. k < length fcl \<Longrightarrow>
      B' ! (i + 1 + k) = sum_list (map (signed_battery kg) (fcl ! k)) \<and>
      cycle_row kg (fcl ! k) (A1 ! (i + 1 + k)) (A' ! (i + 1 + k))" by blast
  have 1: "i' = i + length (cycle # fcl)" using c by simp
  have 2: "length A' = length A" "length B' = length B" using a b c by simp_all
  have 3: "\<forall>r < i. A' ! r = A ! r \<and> B' ! r = B ! r"
    using keep A1o b by simp
  have 4: "\<forall>r \<ge> i + length (cycle # fcl). A' ! r = A ! r"
  proof (intro allI impI)
    fix r assume r: "i + length (cycle # fcl) \<le> r"
    then have "i + 1 + length fcl \<le> r" by simp
    with c have "A' ! r = A1 ! r" by blast
    with A1o[of r] r show "A' ! r = A ! r" by simp
  qed
  have 5: "\<forall>k < length (cycle # fcl).
            B' ! (i + k) = sum_list (map (signed_battery kg) ((cycle # fcl) ! k)) \<and>
            cycle_row kg ((cycle # fcl) ! k) (A ! (i + k)) (A' ! (i + k))"
  proof (intro allI impI)
    fix k assume k: "k < length (cycle # fcl)"
    show "B' ! (i + k) = sum_list (map (signed_battery kg) ((cycle # fcl) ! k)) \<and>
            cycle_row kg ((cycle # fcl) ! k) (A ! (i + k)) (A' ! (i + k))"
    proof (cases k)
      case 0
      with keep[of i] b v row show ?thesis by simp
    next
      case (Suc k')
      with k have "k' < length fcl" by simp
      from rest[OF this] A1o[of "i + 1 + k'"] Suc show ?thesis by simp
    qed
  qed
  have 6: "\<forall>k < length (cycle # fcl). i + k < length B"
  proof (intro allI impI)
    fix k assume k: "k < length (cycle # fcl)"
    show "i + k < length B"
    proof (cases k)
      case 0
      with b show ?thesis by simp
    next
      case (Suc k')
      with k have "k' < length fcl" by simp
      with c have "i + 1 + k' < length B1" by blast
      with b Suc show ?thesis by simp
    qed
  qed
  from 1 2 3 4 5 6 show ?case by blast
qed

lemma kcl_edge_Inr:
  "kcl_edge kg i node nei A = Inr A' \<Longrightarrow> length A' = length A \<and> (\<forall>r. r \<noteq> i \<longrightarrow> A' ! r = A ! r)"
  using set_A_Inr by (fastforce simp: kcl_edge_def split: sum.splits if_splits)

lemma kcl_node_Inr:
  "kcl_node kg i node neis A = Inr A' \<Longrightarrow> length A' = length A \<and> (\<forall>r. r \<noteq> i \<longrightarrow> A' ! r = A ! r)"
proof (induction neis arbitrary: A)
  case Nil
  then show ?case by simp
next
  case (Cons nei neis)
  from Cons.prems obtain A1 where s1: "kcl_edge kg i node nei A = Inr A1"
    and s2: "kcl_node kg i node neis A1 = Inr A'" by (auto split: sum.splits)
  from kcl_edge_Inr[OF s1] Cons.IH[OF s2] show ?case by simp
qed

lemma kcl_rows_Inr:
  "kcl_rows kg nodes i A = Inr (i', A') \<Longrightarrow>
   i \<le> i' \<and> i' \<le> i + length nodes \<and> length A' = length A \<and> (\<forall>r < i. A' ! r = A ! r)"
proof (induction nodes arbitrary: i A)
  case Nil
  then show ?case by simp
next
  case (Cons node nodes)
  from Cons.prems obtain A1 where s1: "kcl_node kg i node (adj kg ! node) A = Inr A1"
    by (auto split: sum.splits)
  note a = kcl_node_Inr[OF s1]
  show ?case
  proof (cases "i + 1 = number_of_edges kg")
    case True
    with Cons.prems s1 a show ?thesis by auto
  next
    case False
    with Cons.prems s1 have "kcl_rows kg nodes (i + 1) A1 = Inr (i', A')" by simp
    from Cons.IH[OF this] a show ?thesis by auto
  qed
qed

text \<open>
  Claim C1: in the system that \<^verbatim>\<open>find_kg_edges_weights\<close> assembles, row \<open>k\<close> belongs
  to the \<open>k\<close>-th fundamental cycle. Every step of the walk of a cycle takes the branch
  \<open>(org, dst)\<close>; when this is the branch's \<^verbatim>\<open>suggested_dir\<close> the accumulator is
  decreased by the source voltage and the branch's column of the row is set to minus
  the resistance, otherwise the accumulator is increased and the column is set to plus
  the resistance (\<open>signed_battery\<close>, \<open>signed_resistor\<close>). After the walk \<open>B\<close> holds the
  accumulated sum in row \<open>k\<close>, and the row of \<open>A\<close> holds the signed resistance of every
  branch of the cycle in its column and zero elsewhere; the rows of the nodes, written
  later, leave it as it is.
\<close>

theorem kvl_rows_of_kg_system:
  assumes "graph_ok kg" "fundamental_cycles kg = Inr fcl" "kg_system kg = Inr (i, i', A, B)"
  shows "i = length fcl \<and> length A = number_of_edges kg \<and> length B = number_of_edges kg \<and>
         (\<forall>k < length fcl.
            B ! k = sum_list (map (signed_battery kg) (fcl ! k)) \<and>
            cycle_row kg (fcl ! k) (replicate (number_of_edges kg) 0) (A ! k)) \<and>
         (\<forall>r e v M v' M'. kvl_edge kg r e (v, M) = Inr (v', M') \<longrightarrow>
            (\<exists>c. column kg e = Some c \<and> v' = v + signed_battery kg e \<and>
                 M' = M[r := (M ! r)[c := signed_resistor kg e]]))"
proof -
  let ?E = "number_of_edges kg"
  from assms(2,3) obtain A1 B1 where
    s1: "kvl_rows kg fcl 0 (replicate ?E (replicate ?E 0)) (replicate ?E 0) = Inr (i, A1, B1)" and
    s2: "kcl_rows kg [0..<length (adj kg)] i A1 = Inr (i', A)" and B: "B = B1"
    by (auto simp: kg_system_def Let_def split: sum.splits)
  note a = kvl_rows_Inr[OF assms(1) s1] and b = kcl_rows_Inr[OF s2]
  from a have i: "i = length fcl" by simp
  have l: "length A = ?E" "length B = ?E" using a b B by simp_all
  have rows: "\<forall>k < length fcl.
            B ! k = sum_list (map (signed_battery kg) (fcl ! k)) \<and>
            cycle_row kg (fcl ! k) (replicate ?E 0) (A ! k)"
  proof (intro allI impI)
    fix k assume k: "k < length fcl"
    with a have r: "B1 ! k = sum_list (map (signed_battery kg) (fcl ! k))"
      "cycle_row kg (fcl ! k) (replicate ?E (replicate ?E 0) ! k) (A1 ! k)" by auto
    from a k have kE: "k < ?E" by auto
    from b k i have "A ! k = A1 ! k" by simp
    with r B kE show "B ! k = sum_list (map (signed_battery kg) (fcl ! k)) \<and>
            cycle_row kg (fcl ! k) (replicate ?E 0) (A ! k)" by simp
  qed
  have step: "\<forall>r e v M v' M'. kvl_edge kg r e (v, M) = Inr (v', M') \<longrightarrow>
            (\<exists>c. column kg e = Some c \<and> v' = v + signed_battery kg e \<and>
                 M' = M[r := (M ! r)[c := signed_resistor kg e]])"
    using kvl_edge_Inr[OF assms(1)] by blast
  from i l rows step show ?thesis by blast
qed

theorem kvl_rows_of_kg_system_witness:
  "graph_ok triangle \<and> fundamental_cycles triangle = Inr [triangle_cycle] \<and>
   kg_system triangle = Inr (1, 3, triangle_A, triangle_B) \<and>
   triangle_B ! 0 = sum_list (map (signed_battery triangle) triangle_cycle) \<and>
   cycle_row triangle triangle_cycle (replicate (number_of_edges triangle) 0) (triangle_A ! 0)"
proof -
  have a: "graph_ok triangle" by code_simp
  have b: "fundamental_cycles triangle = Inr [triangle_cycle]" by code_simp
  have c: "kg_system triangle = Inr (1, 3, triangle_A, triangle_B)" by code_simp
  from kvl_rows_of_kg_system[OF a b c]
  have "\<forall>k < length [triangle_cycle].
            triangle_B ! k = sum_list (map (signed_battery triangle) ([triangle_cycle] ! k)) \<and>
            cycle_row triangle ([triangle_cycle] ! k) (replicate (number_of_edges triangle) 0)
              (triangle_A ! k)" by blast
  then have "triangle_B ! 0 = sum_list (map (signed_battery triangle) triangle_cycle) \<and>
   cycle_row triangle triangle_cycle (replicate (number_of_edges triangle) 0) (triangle_A ! 0)"
    by simp
  with a b c show ?thesis by blast
qed

section \<open>Kruskal's spanning tree\<close>

lemma uf_union_length [simp]: "length (uf_union u v L) = length L"
  by (simp add: uf_union_def)

lemma uf_union_nth:
  "x < length L \<Longrightarrow> uf_union u v L ! x = (if L ! x = L ! v then L ! u else L ! x)"
  by (simp add: uf_union_def)

lemma uf_union_card:
  assumes "u < length L" "v < length L" "L ! u \<noteq> L ! v"
  shows "Suc (card (set (uf_union u v L))) = card (set L)"
proof -
  have "set (uf_union u v L) = set L - {L ! v}"
    using assms by (auto simp: uf_union_def)
  moreover have "L ! v \<in> set L" using assms by simp
  ultimately show ?thesis using card_Suc_Diff1[of "set L" "L ! v"] by simp
qed

lemma kruskal_subtrees_length [simp]: "length (kruskal_subtrees es L) = length L"
  by (induction es arbitrary: L) auto

lemma kruskal_count:
  "in_range (length L) es \<Longrightarrow>
   length (kruskal_mst_edges es L) + card (set (kruskal_subtrees es L)) = card (set L)"
proof (induction es arbitrary: L)
  case Nil
  then show ?case by simp
next
  case (Cons e es)
  from Cons.prems have e: "fst e < length L" "snd e < length L" and r: "in_range (length L) es"
    by (auto simp: in_range_def)
  show ?case
  proof (cases "L ! fst e \<noteq> L ! snd e")
    case True
    from r have "in_range (length (uf_union (fst e) (snd e) L)) es" by simp
    from Cons.IH[OF this] uf_union_card[OF e True] True show ?thesis by simp
  next
    case False
    with Cons.IH[OF r] show ?thesis by simp
  qed
qed

lemma kruskal_keeps_equal:
  "x < length L \<Longrightarrow> y < length L \<Longrightarrow> L ! x = L ! y \<Longrightarrow>
   kruskal_subtrees es L ! x = kruskal_subtrees es L ! y"
proof (induction es arbitrary: L)
  case Nil
  then show ?case by simp
next
  case (Cons e es)
  show ?case
  proof (cases "L ! fst e \<noteq> L ! snd e")
    case True
    have "uf_union (fst e) (snd e) L ! x = uf_union (fst e) (snd e) L ! y"
      using Cons.prems by (simp add: uf_union_nth)
    with Cons.IH[of "uf_union (fst e) (snd e) L"] Cons.prems True show ?thesis by simp
  next
    case False
    with Cons.IH[of L] Cons.prems show ?thesis by simp
  qed
qed

lemma kruskal_joins_edges:
  "in_range (length L) es \<Longrightarrow> (u, v) \<in> set es \<Longrightarrow>
   kruskal_subtrees es L ! u = kruskal_subtrees es L ! v"
proof (induction es arbitrary: L)
  case Nil
  then show ?case by simp
next
  case (Cons e es)
  from Cons.prems have e: "fst e < length L" "snd e < length L" and r: "in_range (length L) es"
    by (auto simp: in_range_def)
  show ?case
  proof (cases "e = (u, v)")
    case True
    with e have uv: "u < length L" "v < length L" by auto
    show ?thesis
    proof (cases "L ! u \<noteq> L ! v")
      case ne: True
      have "uf_union u v L ! u = uf_union u v L ! v" using uv ne by (simp add: uf_union_nth)
      with kruskal_keeps_equal[of u "uf_union u v L" v es] uv ne True show ?thesis by simp
    next
      case False
      with kruskal_keeps_equal[of u L v es] uv True show ?thesis by simp
    qed
  next
    case False
    with Cons.prems have m: "(u, v) \<in> set es" by auto
    show ?thesis
    proof (cases "L ! fst e \<noteq> L ! snd e")
      case True
      from r have "in_range (length (uf_union (fst e) (snd e) L)) es" by simp
      from Cons.IH[OF this m] True show ?thesis by simp
    next
      case False
      with Cons.IH[OF r m] show ?thesis by simp
    qed
  qed
qed

lemma kruskal_labels_connected:
  assumes "in_range (length L) es"
    and "\<forall>x < length L. \<forall>y < length L. L ! x = L ! y \<longrightarrow> (x, y) \<in> R\<^sup>*"
  shows "\<forall>x < length L. \<forall>y < length L.
           kruskal_subtrees es L ! x = kruskal_subtrees es L ! y \<longrightarrow>
           (x, y) \<in> (R \<union> set (kruskal_mst_edges es L) \<union> (set (kruskal_mst_edges es L))\<inverse>)\<^sup>*"
  using assms
proof (induction es arbitrary: L R)
  case Nil
  then show ?case by simp
next
  case (Cons e es)
  from Cons.prems have e: "fst e < length L" "snd e < length L" and r: "in_range (length L) es"
    by (auto simp: in_range_def)
  show ?case
  proof (cases "L ! fst e \<noteq> L ! snd e")
    case True
    let ?L = "uf_union (fst e) (snd e) L"
    let ?R = "R \<union> {e} \<union> {e}\<inverse>"
    have R: "R\<^sup>* \<subseteq> ?R\<^sup>*" by (rule rtrancl_mono) blast
    have uv: "(fst e, snd e) \<in> ?R\<^sup>*" "(snd e, fst e) \<in> ?R\<^sup>*"
      by (auto intro!: r_into_rtrancl)
    have h: "\<forall>x < length ?L. \<forall>y < length ?L. ?L ! x = ?L ! y \<longrightarrow> (x, y) \<in> ?R\<^sup>*"
    proof (intro allI impI)
      fix x y assume x: "x < length ?L" and y: "y < length ?L" and eq: "?L ! x = ?L ! y"
      then have xl: "x < length L" and yl: "y < length L" by simp_all
      show "(x, y) \<in> ?R\<^sup>*"
      proof (cases "L ! x = L ! y")
        case True
        with Cons.prems(2) xl yl R show ?thesis by blast
      next
        case False
        with eq xl yl have "(L ! x = L ! snd e \<and> L ! y = L ! fst e) \<or>
                            (L ! x = L ! fst e \<and> L ! y = L ! snd e)"
          by (auto simp: uf_union_nth split: if_splits)
        then show ?thesis
        proof
          assume h: "L ! x = L ! snd e \<and> L ! y = L ! fst e"
          with Cons.prems(2) xl yl e have "(x, snd e) \<in> R\<^sup>*" "(fst e, y) \<in> R\<^sup>*" by auto
          with R uv(2) show ?thesis by (meson rtrancl_trans subsetD)
        next
          assume h: "L ! x = L ! fst e \<and> L ! y = L ! snd e"
          with Cons.prems(2) xl yl e have "(x, fst e) \<in> R\<^sup>*" "(snd e, y) \<in> R\<^sup>*" by auto
          with R uv(1) show ?thesis by (meson rtrancl_trans subsetD)
        qed
      qed
    qed
    from r have r': "in_range (length ?L) es" by simp
    have "\<forall>x < length ?L. \<forall>y < length ?L.
           kruskal_subtrees es ?L ! x = kruskal_subtrees es ?L ! y \<longrightarrow>
           (x, y) \<in> (?R \<union> set (kruskal_mst_edges es ?L) \<union> (set (kruskal_mst_edges es ?L))\<inverse>)\<^sup>*"
      by (rule Cons.IH[OF r' h])
    moreover have "?R \<union> set (kruskal_mst_edges es ?L) \<union> (set (kruskal_mst_edges es ?L))\<inverse> =
        R \<union> set (kruskal_mst_edges (e # es) L) \<union> (set (kruskal_mst_edges (e # es) L))\<inverse>"
      using True by auto
    ultimately show ?thesis using True by simp
  next
    case False
    with Cons.IH[OF r Cons.prems(2)] show ?thesis by simp
  qed
qed

lemma kruskal_distinct: "distinct es \<Longrightarrow> distinct (kruskal_mst_edges es L)"
proof (induction es arbitrary: L)
  case Nil
  then show ?case by simp
next
  case (Cons e es)
  then show ?case using kruskal_subset[of es] by (auto simp: Let_def)
qed

lemma distinct_concat_map:
  assumes "distinct xs" "\<And>x. x \<in> set xs \<Longrightarrow> distinct (f x)"
    and "\<And>x y. x \<in> set xs \<Longrightarrow> y \<in> set xs \<Longrightarrow> x \<noteq> y \<Longrightarrow> set (f x) \<inter> set (f y) = {}"
  shows "distinct (concat (map f xs))"
  using assms
proof (induction xs)
  case Nil
  then show ?case by simp
next
  case (Cons x xs)
  have "distinct (concat (map f xs))" using Cons by auto
  moreover have "distinct (f x)" using Cons.prems(2) by simp
  moreover have "set (f x) \<inter> \<Union> (set ` f ` set xs) = {}"
    using Cons.prems(1,3) by fastforce
  ultimately show ?case by simp
qed

lemma edges_distinct:
  assumes "graph_ok g"
  shows "distinct (edges g)"
  unfolding edges_def
proof (rule distinct_concat_map)
  show "distinct [0..<length (adj g)]" by simp
next
  fix u assume "u \<in> set [0..<length (adj g)]"
  with assms have "distinct (adj g ! u)" by (simp add: graph_ok_def adj_ok_iff)
  then show "distinct (map (Pair u) (filter ((\<le>) u) (adj g ! u)))"
    by (simp add: distinct_map inj_on_def)
next
  fix u v :: nat assume "u \<noteq> v"
  then show "set (map (Pair u) (filter ((\<le>) u) (adj g ! u))) \<inter>
             set (map (Pair v) (filter ((\<le>) v) (adj g ! v))) = {}" by auto
qed

lemma number_of_edges_card: "graph_ok g \<Longrightarrow> number_of_edges g = card (set (edges g))"
  by (simp add: number_of_edges_def distinct_card edges_distinct)

lemma edges_le: "(u, v) \<in> set (edges g) \<Longrightarrow> u \<le> v"
  by (simp add: edges_set)

lemma minimum_spanning_tree_edges:
  assumes "graph_ok kg"
  shows "set (edges (minimum_spanning_tree kg)) =
         set (kruskal_mst_edges (edges kg) [0..<length (adj kg)])"
proof -
  let ?K = "kruskal_mst_edges (edges kg) [0..<length (adj kg)]"
  have K: "u \<le> v \<and> u < length (adj kg)" if "(u, v) \<in> set ?K" for u v
  proof -
    from that kruskal_subset[of "edges kg" "[0..<length (adj kg)]"]
    have "(u, v) \<in> set (edges kg)" by blast
    then show ?thesis by (simp add: edges_set)
  qed
  have "(u, v) \<in> set (edges (minimum_spanning_tree kg)) \<longleftrightarrow> (u, v) \<in> set ?K" for u v
  proof -
    have "(u, v) \<in> set (edges (minimum_spanning_tree kg)) \<longleftrightarrow>
          has_edge (minimum_spanning_tree kg) u v \<and> u \<le> v"
      by (auto simp: edges_set has_edge_def)
    also have "\<dots> \<longleftrightarrow> u < length (adj kg) \<and> ((u, v) \<in> set ?K \<or> (v, u) \<in> set ?K) \<and> u \<le> v"
      using minimum_spanning_tree_has_edge[OF assms] by auto
    also have "\<dots> \<longleftrightarrow> (u, v) \<in> set ?K"
    proof
      assume h: "u < length (adj kg) \<and> ((u, v) \<in> set ?K \<or> (v, u) \<in> set ?K) \<and> u \<le> v"
      show "(u, v) \<in> set ?K"
      proof (cases "(u, v) \<in> set ?K")
        case True then show ?thesis .
      next
        case False
        with h have vu: "(v, u) \<in> set ?K" by blast
        with K[OF vu] h have "u = v" by simp
        with vu show ?thesis by simp
      qed
    next
      assume "(u, v) \<in> set ?K"
      with K show "u < length (adj kg) \<and> ((u, v) \<in> set ?K \<or> (v, u) \<in> set ?K) \<and> u \<le> v"
        by blast
    qed
    finally show ?thesis .
  qed
  then show ?thesis by auto
qed

lemma connected_same_label:
  assumes "graph_ok kg" "connected kg" "x < length (adj kg)" "y < length (adj kg)"
  shows "kruskal_subtrees (edges kg) [0..<length (adj kg)] ! x =
         kruskal_subtrees (edges kg) [0..<length (adj kg)] ! y"
proof -
  let ?L = "kruskal_subtrees (edges kg) [0..<length (adj kg)]"
  have r: "in_range (length [0..<length (adj kg)]) (edges kg)"
    using edges_in_range[OF assms(1)] by simp
  have step: "?L ! u = ?L ! v" if "has_edge kg u v" for u v
  proof -
    from that graph_ok_has_edge_sym[OF assms(1) that]
    have "(u, v) \<in> set (edges kg) \<or> (v, u) \<in> set (edges kg)"
      by (cases "u \<le> v") (auto simp: edges_set has_edge_def)
    with kruskal_joins_edges[OF r] show ?thesis by metis
  qed
  from assms have "(x, y) \<in> (edge_rel kg)\<^sup>*" by (simp add: connected_def)
  then show ?thesis
  proof (induction rule: rtrancl_induct)
    case base
    show ?case by simp
  next
    case (step y z)
    then have "has_edge kg y z" by (simp add: edge_rel_def)
    with step.IH \<open>\<And>u v. has_edge kg u v \<Longrightarrow> ?L ! u = ?L ! v\<close> show ?case by simp
  qed
qed

lemma spanning_tree_size:
  assumes "graph_ok kg" "connected kg"
  shows "Suc (length (kruskal_mst_edges (edges kg) [0..<length (adj kg)])) = length (adj kg)"
proof -
  let ?n = "length (adj kg)"
  let ?L = "kruskal_subtrees (edges kg) [0..<?n]"
  from assms(2) have n: "0 < ?n" by (simp add: connected_def)
  have r: "in_range (length [0..<?n]) (edges kg)"
    using edges_in_range[OF assms(1)] by simp
  have "set ?L = {?L ! 0}"
  proof
    show "set ?L \<subseteq> {?L ! 0}"
    proof
      fix c assume "c \<in> set ?L"
      then obtain x where "x < ?n" "?L ! x = c" by (auto simp: in_set_conv_nth)
      with connected_same_label[OF assms, of x 0] n show "c \<in> {?L ! 0}" by simp
    qed
    show "{?L ! 0} \<subseteq> set ?L" using n by simp
  qed
  then have "card (set ?L) = 1" by simp
  with kruskal_count[OF r] show ?thesis by simp
qed

lemma spanning_tree_number_of_edges:
  assumes "graph_ok kg" "connected kg"
  shows "Suc (number_of_edges (minimum_spanning_tree kg)) = length (adj kg)"
proof -
  have "number_of_edges (minimum_spanning_tree kg) =
        card (set (kruskal_mst_edges (edges kg) [0..<length (adj kg)]))"
    using number_of_edges_card[OF minimum_spanning_tree_ok[OF assms(1)]]
      minimum_spanning_tree_edges[OF assms(1)] by simp
  also have "\<dots> = length (kruskal_mst_edges (edges kg) [0..<length (adj kg)])"
    by (rule distinct_card) (rule kruskal_distinct[OF edges_distinct[OF assms(1)]])
  finally show ?thesis using spanning_tree_size[OF assms] by simp
qed

lemma spanning_tree_connected:
  assumes "graph_ok kg" "connected kg"
  shows "connected (minimum_spanning_tree kg)"
proof -
  let ?n = "length (adj kg)"
  let ?K = "kruskal_mst_edges (edges kg) [0..<?n]"
  let ?T = "minimum_spanning_tree kg"
  let ?L = "kruskal_subtrees (edges kg) [0..<?n]"
  have r: "in_range (length [0..<?n]) (edges kg)"
    using edges_in_range[OF assms(1)] by simp
  have Kr: "in_range ?n ?K"
    using edges_in_range[OF assms(1)] kruskal_subset in_range_subset by blast
  have "\<forall>x < length [0..<?n]. \<forall>y < length [0..<?n]. [0..<?n] ! x = [0..<?n] ! y \<longrightarrow> (x, y) \<in> {}\<^sup>*"
    by simp
  note raw = kruskal_labels_connected[OF r this]
  have c: "(x, y) \<in> (set ?K \<union> (set ?K)\<inverse>)\<^sup>*" if "x < ?n" "y < ?n" for x y
  proof -
    from that have "x < length [0..<?n]" "y < length [0..<?n]" by simp_all
    moreover have "?L ! x = ?L ! y" by (rule connected_same_label[OF assms that])
    ultimately have "(x, y) \<in> ({} \<union> set ?K \<union> (set ?K)\<inverse>)\<^sup>*" using raw by blast
    then show ?thesis by (simp only: Un_empty_left)
  qed
  have sub: "set ?K \<union> (set ?K)\<inverse> \<subseteq> edge_rel ?T"
  proof
    fix p assume p: "p \<in> set ?K \<union> (set ?K)\<inverse>"
    obtain u v where uv: "p = (u, v)" by (cases p)
    with p have m: "(u, v) \<in> set ?K \<or> (v, u) \<in> set ?K" by auto
    with Kr have "u < ?n" unfolding in_range_def list_all_iff by fastforce
    with m have "has_edge ?T u v"
      unfolding minimum_spanning_tree_has_edge[OF assms(1)] by blast
    with uv show "p \<in> edge_rel ?T" by (simp add: edge_rel_def)
  qed
  show ?thesis
    unfolding connected_def
  proof (intro conjI allI impI)
    from assms(2) show "0 < length (adj ?T)" by (simp add: connected_def)
  next
    fix x y assume "x < length (adj ?T)" "y < length (adj ?T)"
    then have "x < ?n" "y < ?n" by simp_all
    from c[OF this] rtrancl_mono[OF sub] show "(x, y) \<in> (edge_rel ?T)\<^sup>*" by blast
  qed
qed

section \<open>The spanning forest of a graph that is not connected\<close>

lemma rtrancl_insert_edge:
  assumes "(x, y) \<in> (S \<union> {(u, v), (v, u)})\<^sup>*"
  shows "(x, y) \<in> S\<^sup>* \<or> ((x, u) \<in> S\<^sup>* \<and> (v, y) \<in> S\<^sup>*) \<or> ((x, v) \<in> S\<^sup>* \<and> (u, y) \<in> S\<^sup>*)"
  using assms
proof (induction rule: rtrancl_induct)
  case base
  show ?case by simp
next
  case (step y z)
  from step.hyps(2) consider "(y, z) \<in> S" | "y = u" "z = v" | "y = v" "z = u" by auto
  then show ?case
  proof cases
    case 1
    with step.IH show ?thesis by (meson rtrancl.rtrancl_into_rtrancl)
  next
    case 2
    with step.IH show ?thesis by blast
  next
    case 3
    with step.IH show ?thesis by blast
  qed
qed

lemma sym_rtranclD: "sym R \<Longrightarrow> (x, y) \<in> R\<^sup>* \<Longrightarrow> (y, x) \<in> R\<^sup>*"
  using sym_rtrancl[of R] by (simp add: sym_def)

lemma acyclic_rel_add_edge:
  assumes s: "sym R" and a: "acyclic_rel R"
    and uv: "(u, v) \<notin> R\<^sup>*" and vu: "(v, u) \<notin> R\<^sup>*"
  shows "acyclic_rel (R \<union> {(u, v), (v, u)})"
  unfolding acyclic_rel_def
proof (intro allI impI)
  fix a b assume ab: "(a, b) \<in> R \<union> {(u, v), (v, u)}"
  let ?R' = "R \<union> {(u, v), (v, u)}"
  from uv vu have nR: "(u, v) \<notin> R" "(v, u) \<notin> R" by auto
  show "(a, b) \<notin> (?R' - {(a, b), (b, a)})\<^sup>*"
  proof
    assume p: "(a, b) \<in> (?R' - {(a, b), (b, a)})\<^sup>*"
    show False
    proof (cases "(a, b) \<in> R")
      case False
      with ab have e: "(a, b) = (u, v) \<or> (a, b) = (v, u)" by blast
      then have "?R' - {(a, b), (b, a)} \<subseteq> R" by auto
      from rtrancl_mono[OF this] p have "(a, b) \<in> R\<^sup>*" by blast
      with e uv vu show False by auto
    next
      case True
      with nR have ne: "(a, b) \<noteq> (u, v)" "(a, b) \<noteq> (v, u)" by auto
      from s True have ba: "(b, a) \<in> R" by (simp add: sym_def)
      with nR have ne': "(b, a) \<noteq> (u, v)" "(b, a) \<noteq> (v, u)" by auto
      let ?S = "R - {(a, b), (b, a)}"
      from ne ne' have "?R' - {(a, b), (b, a)} = ?S \<union> {(u, v), (v, u)}" by auto
      with p have "(a, b) \<in> (?S \<union> {(u, v), (v, u)})\<^sup>*" by simp
      from rtrancl_insert_edge[OF this]
      consider "(a, b) \<in> ?S\<^sup>*" | "(a, u) \<in> ?S\<^sup>*" "(v, b) \<in> ?S\<^sup>*"
        | "(a, v) \<in> ?S\<^sup>*" "(u, b) \<in> ?S\<^sup>*" by blast
      then show False
      proof cases
        case 1
        with a True show False by (simp add: acyclic_rel_def)
      next
        case 2
        have sub: "?S\<^sup>* \<subseteq> R\<^sup>*" by (rule rtrancl_mono) blast
        from 2 sub have "(a, u) \<in> R\<^sup>*" "(v, b) \<in> R\<^sup>*" by blast+
        then have "(u, a) \<in> R\<^sup>*" "(b, v) \<in> R\<^sup>*" using sym_rtranclD[OF s] by blast+
        with True have "(u, v) \<in> R\<^sup>*"
          by (meson rtrancl.rtrancl_into_rtrancl rtrancl_trans)
        with uv show False by simp
      next
        case 3
        have sub: "?S\<^sup>* \<subseteq> R\<^sup>*" by (rule rtrancl_mono) blast
        from 3 sub have "(a, v) \<in> R\<^sup>*" "(u, b) \<in> R\<^sup>*" by blast+
        then have "(v, a) \<in> R\<^sup>*" "(b, u) \<in> R\<^sup>*" using sym_rtranclD[OF s] by blast+
        with True have "(v, u) \<in> R\<^sup>*"
          by (meson rtrancl.rtrancl_into_rtrancl rtrancl_trans)
        with vu show False by simp
      qed
    qed
  qed
qed

lemma uf_union_labels:
  assumes r: "R \<subseteq> {..<length L} \<times> {..<length L}"
    and u: "u < length L" and v: "v < length L"
    and lab: "\<forall>x y. (x, y) \<in> R\<^sup>* \<longrightarrow> x < length L \<longrightarrow> L ! x = L ! y"
    and p: "(x, y) \<in> (R \<union> {(u, v), (v, u)})\<^sup>*" and x: "x < length L"
  shows "uf_union u v L ! x = uf_union u v L ! y \<and> y < length L"
  using p
proof (induction rule: rtrancl_induct)
  case base
  from x show ?case by simp
next
  case (step y z)
  then have y: "y < length L" and xy: "uf_union u v L ! x = uf_union u v L ! y" by simp_all
  from step.hyps(2) consider "(y, z) \<in> R" | "y = u" "z = v" | "y = v" "z = u" by auto
  then show ?case
  proof cases
    case 1
    with r have z: "z < length L" by auto
    from 1 lab y have "L ! y = L ! z" by blast
    with y z xy show ?thesis by (simp add: uf_union_nth)
  next
    case 2
    with u v xy show ?thesis by (simp add: uf_union_nth)
  next
    case 3
    with u v xy show ?thesis by (simp add: uf_union_nth)
  qed
qed

lemma kruskal_acyclic:
  assumes "in_range (length L) es" "sym R" "acyclic_rel R"
    and "R \<subseteq> {..<length L} \<times> {..<length L}"
    and "\<forall>x y. (x, y) \<in> R\<^sup>* \<longrightarrow> x < length L \<longrightarrow> L ! x = L ! y"
  shows "acyclic_rel (R \<union> set (kruskal_mst_edges es L) \<union> (set (kruskal_mst_edges es L))\<inverse>)"
  using assms
proof (induction es arbitrary: L R)
  case Nil
  then show ?case by simp
next
  case (Cons e es)
  from Cons.prems(1) have e: "fst e < length L" "snd e < length L" and r: "in_range (length L) es"
    by (auto simp: in_range_def)
  show ?case
  proof (cases "L ! fst e \<noteq> L ! snd e")
    case False
    with Cons.IH[OF r Cons.prems(2-5)] show ?thesis by simp
  next
    case True
    let ?u = "fst e" and ?v = "snd e"
    let ?L = "uf_union ?u ?v L"
    let ?R = "R \<union> {(?u, ?v), (?v, ?u)}"
    from True Cons.prems(5) e have uv: "(?u, ?v) \<notin> R\<^sup>*" "(?v, ?u) \<notin> R\<^sup>*" by metis+
    have 1: "in_range (length ?L) es" using r by simp
    have 2: "sym ?R" using Cons.prems(2) by (auto simp: sym_def)
    have 3: "acyclic_rel ?R" by (rule acyclic_rel_add_edge[OF Cons.prems(2,3) uv])
    have 4: "?R \<subseteq> {..<length ?L} \<times> {..<length ?L}" using Cons.prems(4) e by (auto simp: mem_Times_iff)
    have 5: "\<forall>x y. (x, y) \<in> ?R\<^sup>* \<longrightarrow> x < length ?L \<longrightarrow> ?L ! x = ?L ! y"
      using uf_union_labels[OF Cons.prems(4) e Cons.prems(5)] by simp
    have "acyclic_rel (?R \<union> set (kruskal_mst_edges es ?L) \<union> (set (kruskal_mst_edges es ?L))\<inverse>)"
      by (rule Cons.IH[OF 1 2 3 4 5])
    moreover have "?R \<union> set (kruskal_mst_edges es ?L) \<union> (set (kruskal_mst_edges es ?L))\<inverse> =
        R \<union> set (kruskal_mst_edges (e # es) L) \<union> (set (kruskal_mst_edges (e # es) L))\<inverse>"
      using True by (cases e) auto
    ultimately show ?thesis by simp
  qed
qed

lemma minimum_spanning_tree_rel:
  assumes "graph_ok kg"
  shows "edge_rel (minimum_spanning_tree kg) =
         set (kruskal_mst_edges (edges kg) [0..<length (adj kg)]) \<union>
         (set (kruskal_mst_edges (edges kg) [0..<length (adj kg)]))\<inverse>"
proof -
  let ?K = "kruskal_mst_edges (edges kg) [0..<length (adj kg)]"
  have Kr: "in_range (length (adj kg)) ?K"
    using edges_in_range[OF assms] kruskal_subset in_range_subset by blast
  have "has_edge (minimum_spanning_tree kg) u v \<longleftrightarrow> (u, v) \<in> set ?K \<or> (v, u) \<in> set ?K" for u v
  proof -
    have "u < length (adj kg)" if "(u, v) \<in> set ?K \<or> (v, u) \<in> set ?K"
      using that Kr unfolding in_range_def list_all_iff by fastforce
    then show ?thesis unfolding minimum_spanning_tree_has_edge[OF assms] by blast
  qed
  then show ?thesis by (auto simp: edge_rel_def)
qed

lemma minimum_spanning_tree_forest:
  assumes "graph_ok kg"
  shows "forest (minimum_spanning_tree kg)"
proof -
  let ?n = "length (adj kg)"
  have r: "in_range (length [0..<?n]) (edges kg)"
    using edges_in_range[OF assms] by simp
  have "acyclic_rel ({} \<union> set (kruskal_mst_edges (edges kg) [0..<?n]) \<union>
                     (set (kruskal_mst_edges (edges kg) [0..<?n]))\<inverse>)"
    by (rule kruskal_acyclic[OF r]) (simp_all add: sym_def acyclic_rel_def)
  then show ?thesis
    unfolding forest_def minimum_spanning_tree_rel[OF assms] by (simp only: Un_empty_left)
qed

lemma reachable_same_label:
  assumes "graph_ok kg" "(x, y) \<in> (edge_rel kg)\<^sup>*"
  shows "kruskal_subtrees (edges kg) [0..<length (adj kg)] ! x =
         kruskal_subtrees (edges kg) [0..<length (adj kg)] ! y"
proof -
  let ?L = "kruskal_subtrees (edges kg) [0..<length (adj kg)]"
  have r: "in_range (length [0..<length (adj kg)]) (edges kg)"
    using edges_in_range[OF assms(1)] by simp
  have step: "?L ! u = ?L ! v" if "has_edge kg u v" for u v
  proof -
    from that graph_ok_has_edge_sym[OF assms(1) that]
    have "(u, v) \<in> set (edges kg) \<or> (v, u) \<in> set (edges kg)"
      by (cases "u \<le> v") (auto simp: edges_set has_edge_def)
    with kruskal_joins_edges[OF r] show ?thesis by metis
  qed
  from assms(2) show ?thesis
  proof (induction rule: rtrancl_induct)
    case base
    show ?case by simp
  next
    case (step y z)
    then have "has_edge kg y z" by (simp add: edge_rel_def)
    with step.IH \<open>\<And>u v. has_edge kg u v \<Longrightarrow> ?L ! u = ?L ! v\<close> show ?case by simp
  qed
qed

lemma reachable_in_range:
  assumes "graph_ok g" "(x, y) \<in> (edge_rel g)\<^sup>*"
  shows "x = y \<or> (x < length (adj g) \<and> y < length (adj g))"
  using assms(2)
proof (induction rule: rtrancl_induct)
  case base
  show ?case by simp
next
  case (step y z)
  then have h: "has_edge g y z" by (simp add: edge_rel_def)
  then have y: "y < length (adj g)" and "z \<in> set (adj g ! y)" by (simp_all add: has_edge_def)
  with graph_okD(1)[OF assms(1)] have "z < length (adj g)" by blast
  with y step.IH show ?case by blast
qed

lemma same_label_tree_path:
  assumes "graph_ok kg" "x < length (adj kg)" "y < length (adj kg)"
    and "kruskal_subtrees (edges kg) [0..<length (adj kg)] ! x =
         kruskal_subtrees (edges kg) [0..<length (adj kg)] ! y"
  shows "(x, y) \<in> (edge_rel (minimum_spanning_tree kg))\<^sup>*"
proof -
  let ?n = "length (adj kg)"
  have r: "in_range (length [0..<?n]) (edges kg)"
    using edges_in_range[OF assms(1)] by simp
  have "\<forall>x < length [0..<?n]. \<forall>y < length [0..<?n]. [0..<?n] ! x = [0..<?n] ! y \<longrightarrow> (x, y) \<in> {}\<^sup>*"
    by simp
  note raw = kruskal_labels_connected[OF r this]
  from assms(2,3) have "x < length [0..<?n]" "y < length [0..<?n]" by simp_all
  with raw assms(4)
  have "(x, y) \<in> ({} \<union> set (kruskal_mst_edges (edges kg) [0..<?n]) \<union>
                  (set (kruskal_mst_edges (edges kg) [0..<?n]))\<inverse>)\<^sup>*" by blast
  then show ?thesis
    unfolding minimum_spanning_tree_rel[OF assms(1)] by (simp only: Un_empty_left)
qed

lemma minimum_spanning_tree_spans:
  assumes "graph_ok kg"
  shows "(edge_rel kg)\<^sup>* \<subseteq> (edge_rel (minimum_spanning_tree kg))\<^sup>*"
proof
  fix p assume p: "p \<in> (edge_rel kg)\<^sup>*"
  obtain x y where xy: "p = (x, y)" by (cases p)
  from reachable_in_range[OF assms] p xy
  consider "x = y" | "x < length (adj kg)" "y < length (adj kg)" by blast
  then show "p \<in> (edge_rel (minimum_spanning_tree kg))\<^sup>*"
  proof cases
    case 1
    with xy show ?thesis by simp
  next
    case 2
    from reachable_same_label[OF assms] p xy
    have "kruskal_subtrees (edges kg) [0..<length (adj kg)] ! x =
          kruskal_subtrees (edges kg) [0..<length (adj kg)] ! y" by blast
    from same_label_tree_path[OF assms 2 this] xy show ?thesis by simp
  qed
qed

lemma minimum_spanning_tree_spanning_forest:
  assumes "graph_ok kg"
  shows "spanning_forest kg (minimum_spanning_tree kg)"
  unfolding spanning_forest_def
  using minimum_spanning_tree_subgraph[OF assms] minimum_spanning_tree_spans[OF assms]
    minimum_spanning_tree_forest[OF assms]
  by simp


lemma card_image_cong:
  assumes "finite A" "\<forall>x \<in> A. \<forall>y \<in> A. f x = f y \<longleftrightarrow> g x = g y"
  shows "card (f ` A) = card (g ` A)"
  using assms
proof (induction rule: finite_induct)
  case empty
  show ?case by simp
next
  case (insert x F)
  from insert.prems have "f x \<in> f ` F \<longleftrightarrow> g x \<in> g ` F"
    unfolding image_iff by (metis insertCI)
  moreover from insert.prems have "card (f ` F) = card (g ` F)"
    by (intro insert.IH) blast
  ultimately show ?case using insert.hyps by (simp add: card_insert_if)
qed

lemma edge_rel_sym: "graph_ok g \<Longrightarrow> sym (edge_rel g)"
  using graph_ok_has_edge_sym by (auto simp: sym_def edge_rel_def)

lemma same_component_iff:
  assumes "sym R"
  shows "R\<^sup>* `` {x} = R\<^sup>* `` {y} \<longleftrightarrow> (x, y) \<in> R\<^sup>*"
proof
  assume "R\<^sup>* `` {x} = R\<^sup>* `` {y}"
  moreover have "y \<in> R\<^sup>* `` {y}" by simp
  ultimately show "(x, y) \<in> R\<^sup>*" by blast
next
  assume xy: "(x, y) \<in> R\<^sup>*"
  then have yx: "(y, x) \<in> R\<^sup>*" by (rule sym_rtranclD[OF assms])
  from xy yx show "R\<^sup>* `` {x} = R\<^sup>* `` {y}" by (auto intro: rtrancl_trans)
qed

lemma card_components:
  assumes "graph_ok kg"
  shows "card (components kg) = card (set (kruskal_subtrees (edges kg) [0..<length (adj kg)]))"
proof -
  let ?n = "length (adj kg)"
  let ?L = "kruskal_subtrees (edges kg) [0..<?n]"
  have "set ?L = (\<lambda>x. ?L ! x) ` {..<?n}"
    by (auto simp: set_conv_nth)
  moreover have "card ((\<lambda>u. (edge_rel kg)\<^sup>* `` {u}) ` {..<?n}) = card ((\<lambda>x. ?L ! x) ` {..<?n})"
  proof (rule card_image_cong)
    show "finite {..<?n}" by simp
    show "\<forall>x \<in> {..<?n}. \<forall>y \<in> {..<?n}.
            ((edge_rel kg)\<^sup>* `` {x} = (edge_rel kg)\<^sup>* `` {y}) \<longleftrightarrow> (?L ! x = ?L ! y)"
    proof (intro ballI)
      fix x y assume "x \<in> {..<?n}" "y \<in> {..<?n}"
      then have b: "x < ?n" "y < ?n" by simp_all
      have "?L ! x = ?L ! y \<longleftrightarrow> (x, y) \<in> (edge_rel kg)\<^sup>*"
      proof
        assume "?L ! x = ?L ! y"
        from same_label_tree_path[OF assms b this]
          rtrancl_mono[OF minimum_spanning_tree_subgraph[OF assms]]
        show "(x, y) \<in> (edge_rel kg)\<^sup>*" by blast
      next
        assume "(x, y) \<in> (edge_rel kg)\<^sup>*"
        then show "?L ! x = ?L ! y" by (rule reachable_same_label[OF assms])
      qed
      with same_component_iff[OF edge_rel_sym[OF assms], of x y]
      show "((edge_rel kg)\<^sup>* `` {x} = (edge_rel kg)\<^sup>* `` {y}) \<longleftrightarrow> (?L ! x = ?L ! y)" by simp
    qed
  qed
  ultimately show ?thesis by (simp add: components_def)
qed

lemma spanning_forest_size:
  assumes "graph_ok kg"
  shows "number_of_edges (minimum_spanning_tree kg) + card (components kg) = length (adj kg)"
proof -
  let ?n = "length (adj kg)"
  let ?K = "kruskal_mst_edges (edges kg) [0..<?n]"
  have r: "in_range (length [0..<?n]) (edges kg)"
    using edges_in_range[OF assms] by simp
  have "number_of_edges (minimum_spanning_tree kg) = card (set ?K)"
    using number_of_edges_card[OF minimum_spanning_tree_ok[OF assms]]
      minimum_spanning_tree_edges[OF assms] by simp
  also have "\<dots> = length ?K"
    by (rule distinct_card) (rule kruskal_distinct[OF edges_distinct[OF assms]])
  finally show ?thesis using kruskal_count[OF r] card_components[OF assms] by simp
qed

lemma two_components_closed:
  "(x, y) \<in> (edge_rel two_components)\<^sup>* \<Longrightarrow> x < 2 \<Longrightarrow> y < 2"
proof (induction rule: rtrancl_induct)
  case base
  then show ?case by simp
next
  case (step y z)
  then have "y = 0 \<or> y = 1" by auto
  with step.hyps(2) show ?case
    by (auto simp: edge_rel_def has_edge_def two_components_def)
qed

lemma two_components_not_connected: "\<not> connected two_components"
proof
  assume "connected two_components"
  moreover have "length (adj two_components) = 4" by (simp add: two_components_def)
  ultimately have "(0, 2) \<in> (edge_rel two_components)\<^sup>*"
    by (simp add: connected_def)
  from two_components_closed[OF this] show False by simp
qed

text \<open>
  Claim C8, as the code has it: the spanning-tree step has no failure of its own;
  \<^verbatim>\<open>nx.minimum_spanning_tree\<close> raises nothing on a graph that is not connected and the
  program never tests connectivity. For such a graph the step returns a spanning forest:
  a graph on the same nodes, with edges of the input only, without a cycle, that joins
  every two nodes the input joins. It has as many edges as there are nodes less the
  number of components, and it is not connected, so a spanning tree that touches all
  nodes is never produced.
\<close>

theorem spanning_forest_of_disconnected:
  assumes "graph_ok kg" "\<not> connected kg"
  shows "spanning_forest kg (minimum_spanning_tree kg) \<and>
         number_of_edges (minimum_spanning_tree kg) + card (components kg) = length (adj kg) \<and>
         \<not> connected (minimum_spanning_tree kg)"
proof -
  have sf: "spanning_forest kg (minimum_spanning_tree kg)"
    by (rule minimum_spanning_tree_spanning_forest[OF assms(1)])
  have "\<not> connected (minimum_spanning_tree kg)"
  proof
    assume c: "connected (minimum_spanning_tree kg)"
    have "connected kg"
      by (rule connected_mono[OF minimum_spanning_tree_subgraph[OF assms(1)] _ c]) simp
    with assms(2) show False by simp
  qed
  with sf spanning_forest_size[OF assms(1)] show ?thesis by simp
qed

theorem spanning_forest_of_disconnected_witness:
  "graph_ok two_components \<and> \<not> connected two_components \<and>
   spanning_forest two_components (minimum_spanning_tree two_components) \<and>
   number_of_edges (minimum_spanning_tree two_components) = 2 \<and>
   card (components two_components) = 2 \<and>
   \<not> connected (minimum_spanning_tree two_components)"
proof -
  have a: "graph_ok two_components" by code_simp
  have n: "number_of_edges (minimum_spanning_tree two_components) = 2 \<and>
           length (adj two_components) = 4" by code_simp
  from spanning_forest_of_disconnected[OF a two_components_not_connected] n
  have "card (components two_components) = 2" by simp
  with spanning_forest_of_disconnected[OF a two_components_not_connected] a n
    two_components_not_connected
  show ?thesis by blast
qed

text \<open>
  Against claim C8 as stated: for the two branches that form two separate components the
  spanning-tree step returns the forest of both branches, no cycle is found, the system
  is assembled from the rows of the nodes 0 and 1, and the first failure is the solver's,
  on a singular matrix.
\<close>

theorem disconnected_graph_no_error:
  "circuit_parser two_components_records = Inr two_components \<and>
   \<not> connected two_components \<and>
   minimum_spanning_tree two_components = two_components \<and>
   edges (minimum_spanning_tree two_components) = [(0, 1), (2, 3)] \<and>
   fundamental_cycles two_components = Inr [] \<and>
   kg_system two_components = Inr (0, 2, [[- 1, 0], [1, 0]], [0, 0]) \<and>
   find_kg_edges_weights two_components = Inl LinAlgError"
proof -
  have "circuit_parser two_components_records = Inr two_components \<and>
   minimum_spanning_tree two_components = two_components \<and>
   edges (minimum_spanning_tree two_components) = [(0, 1), (2, 3)] \<and>
   fundamental_cycles two_components = Inr [] \<and>
   kg_system two_components = Inr (0, 2, [[- 1, 0], [1, 0]], [0, 0]) \<and>
   find_kg_edges_weights two_components = Inl LinAlgError"
    by code_simp
  with two_components_not_connected show ?thesis by blast
qed

section \<open>The eliminated edges\<close>

lemma to_numpy_array_length [simp]: "length (to_numpy_array g) = length (adj g)"
  by (simp add: to_numpy_array_def)

lemma to_numpy_array_square: "square (to_numpy_array g)"
  by (simp add: square_def list_all_iff to_numpy_array_def)

lemma to_numpy_array_nth:
  assumes "i < length (adj g)" "j < length (adj g)"
  shows "to_numpy_array g ! i ! j = 1 \<longleftrightarrow> has_edge g i j"
    and "to_numpy_array g ! i ! j = 0 \<longleftrightarrow> \<not> has_edge g i j"
    and "to_numpy_array g ! i ! j \<noteq> 0 \<longleftrightarrow> has_edge g i j"
  using assms by (simp_all add: to_numpy_array_def has_edge_def)

lemma sorted_wrt_product:
  assumes "sorted_wrt (<) xs" "sorted_wrt (<) ys"
  shows "sorted_wrt lex_less (List.product xs ys)"
  using assms(1)
proof (induction xs)
  case Nil
  then show ?case by simp
next
  case (Cons x xs)
  have "sorted_wrt lex_less (map (Pair x) ys)"
    using assms(2) by (simp add: sorted_wrt_map lex_less_def)
  moreover have "sorted_wrt lex_less (List.product xs ys)" using Cons by simp
  moreover have "\<forall>p \<in> set (map (Pair x) ys). \<forall>q \<in> set (List.product xs ys). lex_less p q"
    using Cons.prems by (auto simp: lex_less_def)
  ultimately show ?case by (simp add: sorted_wrt_append)
qed

lemma Collect_set_snoc:
  "{q \<in> set (xs @ [p]). P q} = {q \<in> set xs. P q} \<union> (if P p then {p} else {})"
  by auto

lemma eliminated_loop:
  assumes "sorted_wrt lex_less (done @ ps)"
    and "\<forall>p \<in> set (done @ ps). (snd p, fst p) \<in> set (done @ ps)"
    and "\<forall>p \<in> set (done @ ps).
           (kgam ! snd p ! fst p = 1 \<and> kgmstam ! snd p ! fst p = 0) =
           (kgam ! fst p ! snd p = 1 \<and> kgmstam ! fst p ! snd p = 0)"
    and "set l = {p \<in> set done. (kgam ! fst p ! snd p = 1 \<and> kgmstam ! fst p ! snd p = 0) \<and>
                                 fst p \<le> snd p}"
    and "distinct l"
  shows "set (Eliminated_Edges_loop kgam kgmstam ps l) =
           {p \<in> set (done @ ps). (kgam ! fst p ! snd p = 1 \<and> kgmstam ! fst p ! snd p = 0) \<and>
                                  fst p \<le> snd p} \<and>
         distinct (Eliminated_Edges_loop kgam kgmstam ps l)"
  using assms
proof (induction ps arbitrary: "done" l)
  case Nil
  then show ?case by simp
next
  case (Cons p ps)
  obtain i j where p: "p = (i, j)" by (cases p)
  let ?C = "\<lambda>p. kgam ! fst p ! snd p = 1 \<and> kgmstam ! fst p ! snd p = 0"
  have full: "(done @ [p]) @ ps = done @ p # ps" by simp
  from Cons.prems(1) have before: "\<forall>d \<in> set done. lex_less d p"
    and after: "\<forall>q \<in> set ps. lex_less p q"
    by (auto simp: sorted_wrt_append)
  have irr: "\<not> lex_less p p" by (simp add: lex_less_def)
  have pin: "p \<in> set (done @ p # ps)" by simp
  from before irr have pd: "p \<notin> set done" by blast
  have s: "sorted_wrt lex_less ((done @ [p]) @ ps)" using Cons.prems(1) by simp
  have sw: "\<forall>q \<in> set ((done @ [p]) @ ps). (snd q, fst q) \<in> set ((done @ [p]) @ ps)"
    using Cons.prems(2) by simp
  have sy: "\<forall>q \<in> set ((done @ [p]) @ ps).
           (kgam ! snd q ! fst q = 1 \<and> kgmstam ! snd q ! fst q = 0) =
           (kgam ! fst q ! snd q = 1 \<and> kgmstam ! fst q ! snd q = 0)"
    using Cons.prems(3) by simp
  note IH = Cons.IH[OF s sw sy, unfolded full]
  define P where "P q \<longleftrightarrow> (kgam ! fst q ! snd q = 1 \<and> kgmstam ! fst q ! snd q = 0) \<and> fst q \<le> snd q"
    for q
  have inv: "set l = {q \<in> set done. P q}" using Cons.prems(4) by (simp add: P_def)
  show ?case
  proof (cases "?C p")
    case False
    then have step: "Eliminated_Edges_loop kgam kgmstam (p # ps) l =
                     Eliminated_Edges_loop kgam kgmstam ps l"
      using p by auto
    have "\<not> P p" using False unfolding P_def by blast
    then have "set l = {q \<in> set (done @ [p]). P q}"
      unfolding Collect_set_snoc by (simp add: inv)
    then have "set l = {q \<in> set (done @ [p]). ?C q \<and> fst q \<le> snd q}"
      by (simp only: P_def)
    from IH[OF this Cons.prems(5)] show ?thesis unfolding step .
  next
    case True
    show ?thesis
    proof (cases "i \<le> j")
      case le: True
      have nl: "(j, i) \<notin> set l"
      proof
        assume "(j, i) \<in> set l"
        with Cons.prems(4) have "(j, i) \<in> set done" "j \<le> i" by auto
        with le p pd show False by simp
      qed
      with True have step: "Eliminated_Edges_loop kgam kgmstam (p # ps) l =
                     Eliminated_Edges_loop kgam kgmstam ps (l @ [p])"
        using p by auto
      have "P p" using True le p by (simp add: P_def)
      then have "set (l @ [p]) = {q \<in> set (done @ [p]). P q}"
        unfolding Collect_set_snoc by (simp add: inv)
      then have 1: "set (l @ [p]) = {q \<in> set (done @ [p]). ?C q \<and> fst q \<le> snd q}"
        by (simp only: P_def)
      have 2: "distinct (l @ [p])"
        using Cons.prems(4,5) pd by auto
      from IH[OF 1 2] show ?thesis unfolding step .
    next
      case gt: False
      then have ji: "j < i" by simp
      have "lex_less (j, i) p" using ji p by (simp add: lex_less_def)
      moreover have "\<not> lex_less p (j, i)" using ji p by (auto simp: lex_less_def)
      moreover have m: "(j, i) \<in> set (done @ p # ps)"
      proof -
        from Cons.prems(2) pin have "(snd p, fst p) \<in> set (done @ p # ps)" by blast
        with p show ?thesis by simp
      qed
      moreover have "(j, i) \<noteq> p" using ji p by simp
      ultimately have "(j, i) \<notin> set ps" "(j, i) \<in> set (done @ p # ps)" "(j, i) \<noteq> p"
        using after by blast+
      then have d: "(j, i) \<in> set done" by simp
      have "(kgam ! snd p ! fst p = 1 \<and> kgmstam ! snd p ! fst p = 0) = ?C p"
        using Cons.prems(3) pin by blast
      with True p have "kgam ! j ! i = 1 \<and> kgmstam ! j ! i = 0" by simp
      with d ji have il: "(j, i) \<in> set l" using Cons.prems(4) by simp
      with True have step: "Eliminated_Edges_loop kgam kgmstam (p # ps) l =
                     Eliminated_Edges_loop kgam kgmstam ps l"
        using p by auto
      have "\<not> P p" using gt p by (simp add: P_def)
      then have "set l = {q \<in> set (done @ [p]). P q}"
        unfolding Collect_set_snoc by (simp add: inv)
      then have "set l = {q \<in> set (done @ [p]). ?C q \<and> fst q \<le> snd q}"
        by (simp only: P_def)
      from IH[OF this Cons.prems(5)] show ?thesis unfolding step .
    qed
  qed
qed

lemma Eliminated_Edges_set:
  assumes "\<forall>i < length kgam. \<forall>j < length kgam.
           (kgam ! j ! i = 1 \<and> kgmstam ! j ! i = 0) = (kgam ! i ! j = 1 \<and> kgmstam ! i ! j = 0)"
  shows "set (Eliminated_Edges kgam kgmstam) =
           {p. fst p < length kgam \<and> snd p < length kgam \<and>
               (kgam ! fst p ! snd p = 1 \<and> kgmstam ! fst p ! snd p = 0) \<and> fst p \<le> snd p} \<and>
         distinct (Eliminated_Edges kgam kgmstam)"
proof -
  let ?full = "List.product [0..<length kgam] [0..<length kgam]"
  have 1: "sorted_wrt lex_less ([] @ ?full)"
    using sorted_wrt_product[of "[0..<length kgam]" "[0..<length kgam]"] by simp
  have 2: "\<forall>p \<in> set ([] @ ?full). (snd p, fst p) \<in> set ([] @ ?full)"
  proof
    fix p assume "p \<in> set ([] @ ?full)"
    then have "fst p < length kgam \<and> snd p < length kgam" by (simp add: mem_Times_iff)
    then show "(snd p, fst p) \<in> set ([] @ ?full)" by simp
  qed
  have 3: "\<forall>p \<in> set ([] @ ?full).
           (kgam ! snd p ! fst p = 1 \<and> kgmstam ! snd p ! fst p = 0) =
           (kgam ! fst p ! snd p = 1 \<and> kgmstam ! fst p ! snd p = 0)"
  proof
    fix p assume "p \<in> set ([] @ ?full)"
    then have "fst p < length kgam \<and> snd p < length kgam" by (simp add: mem_Times_iff)
    with assms show "(kgam ! snd p ! fst p = 1 \<and> kgmstam ! snd p ! fst p = 0) =
           (kgam ! fst p ! snd p = 1 \<and> kgmstam ! fst p ! snd p = 0)" by blast
  qed
  have 4: "set [] = {p \<in> set []. (kgam ! fst p ! snd p = 1 \<and> kgmstam ! fst p ! snd p = 0) \<and>
                                 fst p \<le> snd p}" by simp
  have 5: "distinct ([] :: (nat \<times> nat) list)" by simp
  note r = eliminated_loop[OF 1 2 3 4 5]
  have "{p \<in> set ([] @ ?full). (kgam ! fst p ! snd p = 1 \<and> kgmstam ! fst p ! snd p = 0) \<and>
                                  fst p \<le> snd p} =
        {p. fst p < length kgam \<and> snd p < length kgam \<and>
               (kgam ! fst p ! snd p = 1 \<and> kgmstam ! fst p ! snd p = 0) \<and> fst p \<le> snd p}"
  proof (rule Collect_cong)
    fix p
    have "p \<in> set ([] @ ?full) \<longleftrightarrow> fst p < length kgam \<and> snd p < length kgam"
      by (simp add: mem_Times_iff)
    then show "(p \<in> set ([] @ ?full) \<and>
          (kgam ! fst p ! snd p = 1 \<and> kgmstam ! fst p ! snd p = 0) \<and> fst p \<le> snd p) =
         (fst p < length kgam \<and> snd p < length kgam \<and>
          (kgam ! fst p ! snd p = 1 \<and> kgmstam ! fst p ! snd p = 0) \<and> fst p \<le> snd p)"
      by blast
  qed
  with r show ?thesis unfolding Eliminated_Edges_def by simp
qed

lemma eliminated_edges_of_tree:
  assumes "graph_ok kg"
  shows "set (Eliminated_Edges (to_numpy_array kg) (to_numpy_array (minimum_spanning_tree kg))) =
           set (edges kg) - set (edges (minimum_spanning_tree kg))"
    and "distinct (Eliminated_Edges (to_numpy_array kg) (to_numpy_array (minimum_spanning_tree kg)))"
proof -
  let ?T = "minimum_spanning_tree kg"
  let ?n = "length (adj kg)"
  have T: "graph_ok ?T" by (rule minimum_spanning_tree_ok[OF assms])
  have sym: "\<forall>i < length (to_numpy_array kg). \<forall>j < length (to_numpy_array kg).
           (to_numpy_array kg ! j ! i = 1 \<and> to_numpy_array ?T ! j ! i = 0) =
           (to_numpy_array kg ! i ! j = 1 \<and> to_numpy_array ?T ! i ! j = 0)"
    using graph_ok_has_edge_sym[OF assms] graph_ok_has_edge_sym[OF T]
    by (auto simp: to_numpy_array_nth)
  note a = Eliminated_Edges_set[OF sym]
  from a show "distinct (Eliminated_Edges (to_numpy_array kg) (to_numpy_array ?T))" by blast
  have "p \<in> set (Eliminated_Edges (to_numpy_array kg) (to_numpy_array ?T)) \<longleftrightarrow>
        p \<in> set (edges kg) - set (edges ?T)" for p
  proof -
    obtain i j where p: "p = (i, j)" by (cases p)
    have "p \<in> set (Eliminated_Edges (to_numpy_array kg) (to_numpy_array ?T)) \<longleftrightarrow>
          i < ?n \<and> j < ?n \<and> has_edge kg i j \<and> \<not> has_edge ?T i j \<and> i \<le> j"
      using a p by (auto simp: to_numpy_array_nth)
    also have "\<dots> \<longleftrightarrow> (i, j) \<in> set (edges kg) \<and> (i, j) \<notin> set (edges ?T)"
      using graph_okD(1)[OF assms, of i j] by (auto simp: edges_set has_edge_def)
    finally show ?thesis using p by simp
  qed
  then show "set (Eliminated_Edges (to_numpy_array kg) (to_numpy_array ?T)) =
           set (edges kg) - set (edges ?T)" by blast
qed

lemma minimum_spanning_tree_edges_subset:
  assumes "graph_ok kg"
  shows "set (edges (minimum_spanning_tree kg)) \<subseteq> set (edges kg)"
  using minimum_spanning_tree_edges[OF assms] kruskal_subset by blast

lemma eliminated_edges_count:
  assumes "graph_ok kg" "connected kg"
  shows "length (Eliminated_Edges (to_numpy_array kg) (to_numpy_array (minimum_spanning_tree kg)))
           + length (adj kg) = number_of_edges kg + 1"
proof -
  let ?T = "minimum_spanning_tree kg"
  let ?el = "Eliminated_Edges (to_numpy_array kg) (to_numpy_array ?T)"
  have "length ?el = card (set (edges kg) - set (edges ?T))"
    using eliminated_edges_of_tree[OF assms(1)] distinct_card[of ?el] by simp
  also have "\<dots> = card (set (edges kg)) - card (set (edges ?T))"
    by (rule card_Diff_subset) (simp_all add: minimum_spanning_tree_edges_subset[OF assms(1)])
  also have "\<dots> = number_of_edges kg - number_of_edges ?T"
    using number_of_edges_card[OF assms(1)]
      number_of_edges_card[OF minimum_spanning_tree_ok[OF assms(1)]] by simp
  finally have "length ?el = number_of_edges kg - number_of_edges ?T" .
  moreover have "number_of_edges ?T \<le> number_of_edges kg"
    using number_of_edges_card[OF assms(1)]
      number_of_edges_card[OF minimum_spanning_tree_ok[OF assms(1)]]
      card_mono[OF _ minimum_spanning_tree_edges_subset[OF assms(1)]] by simp
  ultimately show ?thesis using spanning_tree_number_of_edges[OF assms] by simp
qed

lemma eliminated_edges_in_range:
  assumes "graph_ok kg"
  shows "in_range (length (adj kg))
           (Eliminated_Edges (to_numpy_array kg) (to_numpy_array (minimum_spanning_tree kg)))"
  using eliminated_edges_of_tree(1)[OF assms] edges_in_range[OF assms]
  unfolding in_range_def list_all_iff by blast

section \<open>A cycle is found in a connected graph with as many edges as nodes\<close>

lemma ekey_commute: "ekey u v = ekey v u"
  by (auto simp: ekey_def)

lemma ekey_eq: "ekey a b = ekey c d \<Longrightarrow> (a = c \<and> b = d) \<or> (a = d \<and> b = c)"
  by (auto simp: ekey_def min_def max_def split: if_splits)

lemma ekey_le: "u \<le> v \<Longrightarrow> ekey u v = (u, v)"
  by (simp add: ekey_def)

lemma path_nodes_Cons: "path_nodes s (e # es) = path_nodes s es @ [snd e]"
  by (simp add: path_nodes_def)

lemma path_nodes_append: "path_nodes s (es0 @ es1) = path_nodes s es1 @ map snd (rev es0)"
  by (simp add: path_nodes_def)

lemma path_nodes_last: "es \<noteq> [] \<Longrightarrow> last (path_nodes s es) = snd (hd es)"
  by (cases es) (simp_all add: path_nodes_def)

lemma path_nodes_ne [simp]: "path_nodes s es \<noteq> []"
  by (simp add: path_nodes_def)

lemma pop_edges_path:
  assumes "distinct (path_nodes s es)" "set active = set (path_nodes s es)"
    and "tail \<in> set (path_nodes s es)" "es \<noteq> []" "tail \<noteq> snd (hd es)"
    and "pop_edges tail es active = (es1, active1)"
  shows "(\<exists>es0. es = es0 @ es1) \<and> last (path_nodes s es1) = tail \<and>
         set active1 = set (path_nodes s es1)"
  using assms
proof (induction es arbitrary: active)
  case Nil
  then show ?case by simp
next
  case (Cons e es)
  let ?act = "removeAll (snd e) active"
  from Cons.prems(1) have d: "distinct (path_nodes s es)" and ne: "snd e \<notin> set (path_nodes s es)"
    by (simp_all add: path_nodes_Cons)
  from Cons.prems(2) ne have act: "set ?act = set (path_nodes s es)"
    by (auto simp: path_nodes_Cons)
  from Cons.prems(3,5) have t: "tail \<in> set (path_nodes s es)"
    by (simp add: path_nodes_Cons)
  show ?case
  proof (cases "es \<noteq> [] \<and> tail = snd (hd es)")
    case True
    with Cons.prems(6) have r: "es1 = es" "active1 = ?act" by (simp_all add: Let_def)
    have "e # es = [e] @ es1" using r by simp
    then have "\<exists>es0. e # es = es0 @ es1" by blast
    moreover have "last (path_nodes s es1) = tail" using True r path_nodes_last by simp
    ultimately show ?thesis using act r by simp
  next
    case False
    with Cons.prems(6) have p: "pop_edges tail es ?act = (es1, active1)"
      by (simp add: Let_def)
    show ?thesis
    proof (cases "es = []")
      case True
      with p have r: "es1 = []" "active1 = [tail]" by simp_all
      from t True have "tail = s" by (simp add: path_nodes_def)
      with r show ?thesis by (simp add: path_nodes_def)
    next
      case ne: False
      with False have "tail \<noteq> snd (hd es)" by simp
      from Cons.IH[OF d act t ne this p] obtain es0 where "es = es0 @ es1"
        and rest: "last (path_nodes s es1) = tail" "set active1 = set (path_nodes s es1)" by blast
      then have "e # es = (e # es0) @ es1" by simp
      then have "\<exists>es0. e # es = es0 @ es1" by blast
      with rest show ?thesis by simp
    qed
  qed
qed

lemma prefix_same_last:
  assumes "distinct P" "P = xs @ zs" "P = ys @ ws" "xs \<noteq> []" "ys \<noteq> []" "last xs = last ys"
  shows "xs = ys"
proof -
  from assms(4,5) have pos: "0 < length xs" "0 < length ys" by simp_all
  from assms(4) have l1: "length xs - 1 < length xs" by (cases xs) simp_all
  from assms(5) have l2: "length ys - 1 < length ys" by (cases ys) simp_all
  have lx: "length xs - 1 < length P" "P ! (length xs - 1) = last xs"
  proof -
    from l1 assms(2) show "length xs - 1 < length P" by simp
    have "P ! (length xs - 1) = xs ! (length xs - 1)"
      unfolding assms(2) using l1 by (rule nth_append_left)
    with assms(4) show "P ! (length xs - 1) = last xs" by (simp add: last_conv_nth)
  qed
  have ly: "length ys - 1 < length P" "P ! (length ys - 1) = last ys"
  proof -
    from l2 assms(3) show "length ys - 1 < length P" by simp
    have "P ! (length ys - 1) = ys ! (length ys - 1)"
      unfolding assms(3) using l2 by (rule nth_append_left)
    with assms(5) show "P ! (length ys - 1) = last ys" by (simp add: last_conv_nth)
  qed
  from lx(2) ly(2) assms(6) have "P ! (length xs - 1) = P ! (length ys - 1)" by simp
  with nth_eq_iff_index_eq[OF assms(1) lx(1) ly(1)] have "length xs - 1 = length ys - 1"
    by blast
  with l1 l2 have "length xs = length ys" by linarith
  with assms(2,3) show ?thesis by (metis append_eq_append_conv)
qed

lemma scan_pop:
  assumes "scan_rel s (cur # stack) es active ph"
    and "(case ph of None \<Rightarrow> (es, active)
          | Some p \<Rightarrow> if cur \<noteq> p then pop_edges cur es active else (es, active)) = (es1, active1)"
  shows "path_nodes s es1 = rev (cur # stack) \<and> set active1 = set (cur # stack)"
proof -
  from assms(1) obtain zs where d: "distinct (path_nodes s es)"
    and act: "set active = set (path_nodes s es)"
    and zs: "path_nodes s es = rev (cur # stack) @ zs"
    and ph: "case ph of None \<Rightarrow> es = [] | Some p \<Rightarrow> es \<noteq> [] \<and> p = snd (hd es)"
    by (auto simp: scan_rel_def)
  have cur: "cur \<in> set (path_nodes s es)" using zs by simp
  have key: "path_nodes s es1 = rev (cur # stack)"
    if "\<exists>es0. es = es0 @ es1" "last (path_nodes s es1) = cur" for es1
  proof -
    from that(1) obtain es0 where "es = es0 @ es1" by blast
    then have "path_nodes s es = path_nodes s es1 @ map snd (rev es0)"
      by (simp add: path_nodes_append)
    from prefix_same_last[OF d this zs] that(2) show ?thesis by simp
  qed
  show ?thesis
  proof (cases ph)
    case None
    with ph assms(2) have r: "es = []" "es1 = es" "active1 = active" by simp_all
    then have "\<exists>es0. es = es0 @ es1" by simp
    moreover from r zs have "last (path_nodes s es1) = cur"
      by (cases zs; cases stack) (simp_all add: path_nodes_def)
    ultimately have "path_nodes s es1 = rev (cur # stack)" by (rule key)
    with act r show ?thesis by simp
  next
    case (Some p)
    with ph have ne: "es \<noteq> []" and p: "p = snd (hd es)" by simp_all
    show ?thesis
    proof (cases "cur = p")
      case True
      with Some assms(2) have r: "es1 = es" "active1 = active" by simp_all
      then have "\<exists>es0. es = es0 @ es1" by simp
      moreover have "last (path_nodes s es1) = cur"
        using r True p ne by (simp add: path_nodes_last)
      ultimately have "path_nodes s es1 = rev (cur # stack)" by (rule key)
      with act r show ?thesis by simp
    next
      case False
      with Some assms(2) have pe: "pop_edges cur es active = (es1, active1)" by simp
      from False p have "cur \<noteq> snd (hd es)" by simp
      from pop_edges_path[OF d act cur ne this pe]
      have a: "\<exists>es0. es = es0 @ es1" "last (path_nodes s es1) = cur"
        "set active1 = set (path_nodes s es1)" by blast+
      from key[OF a(1,2)] a(3) show ?thesis by simp
    qed
  qed
qed

lemma dfs_inv_cur:
  assumes "dfs_inv a s (cur # stack) its vis seen"
  shows "cur < length a" "cur < length its" "cur \<in> set seen"
  using assms by (auto simp: dfs_inv_def)

lemma dfs_inv_pop:
  assumes "dfs_inv a s (cur # stack) its vis seen" "its ! cur = []"
  shows "dfs_inv a s stack its vis seen"
proof -
  from assms(1) have i2: "\<forall>w \<in> set seen. w \<notin> set (cur # stack) \<longrightarrow> its ! w = []"
    by (simp add: dfs_inv_def)
  have "\<forall>w \<in> set seen. w \<notin> set stack \<longrightarrow> its ! w = []"
  proof (intro ballI impI)
    fix w assume "w \<in> set seen" "w \<notin> set stack"
    with i2 assms(2) show "its ! w = []" by (cases "w = cur") auto
  qed
  with assms(1) show ?thesis by (simp add: dfs_inv_def)
qed

lemma dfs_inv_consume:
  assumes "dfs_inv a s st its vis seen" "cur < length a" "its ! cur = nbr # rest"
    and "set vis \<subseteq> set vis'" "ekey cur nbr \<in> set vis'"
  shows "length (its[cur := rest]) = length a"
    and "\<forall>w < length a. \<exists>c. a ! w = c @ its[cur := rest] ! w \<and> (\<forall>x \<in> set c. ekey w x \<in> set vis')"
proof -
  from assms(1) have l: "length its = length a"
    and i1: "\<forall>w < length a. \<exists>c. a ! w = c @ its ! w \<and> (\<forall>x \<in> set c. ekey w x \<in> set vis)"
    by (simp_all add: dfs_inv_def)
  from l show "length (its[cur := rest]) = length a" by simp
  show "\<forall>w < length a. \<exists>c. a ! w = c @ its[cur := rest] ! w \<and> (\<forall>x \<in> set c. ekey w x \<in> set vis')"
  proof (intro allI impI)
    fix w assume w: "w < length a"
    with i1 obtain c where c: "a ! w = c @ its ! w" "\<forall>x \<in> set c. ekey w x \<in> set vis" by blast
    show "\<exists>c. a ! w = c @ its[cur := rest] ! w \<and> (\<forall>x \<in> set c. ekey w x \<in> set vis')"
    proof (cases "w = cur")
      case True
      with c assms(3) l w have "a ! w = (c @ [nbr]) @ its[cur := rest] ! w" by simp
      moreover have "\<forall>x \<in> set (c @ [nbr]). ekey w x \<in> set vis'"
        using c(2) assms(4,5) True by auto
      ultimately show ?thesis by blast
    next
      case False
      with c have "a ! w = c @ its[cur := rest] ! w" by simp
      moreover have "\<forall>x \<in> set c. ekey w x \<in> set vis'" using c(2) assms(4) by blast
      ultimately show ?thesis by blast
    qed
  qed
qed

lemma dfs_inv_skip:
  assumes "dfs_inv a s (cur # stack) its vis seen" "its ! cur = nbr # rest"
    and "ekey cur nbr \<in> set vis"
  shows "dfs_inv a s (cur # stack) (its[cur := rest]) vis seen"
proof -
  note c = dfs_inv_consume[OF assms(1) dfs_inv_cur(1)[OF assms(1)] assms(2) subset_refl assms(3)]
  from assms(1) have i2: "\<forall>w \<in> set seen. w \<notin> set (cur # stack) \<longrightarrow> its ! w = []"
    by (simp add: dfs_inv_def)
  have "\<forall>w \<in> set seen. w \<notin> set (cur # stack) \<longrightarrow> its[cur := rest] ! w = []"
  proof (intro ballI impI)
    fix w assume "w \<in> set seen" "w \<notin> set (cur # stack)"
    with i2 show "its[cur := rest] ! w = []" by auto
  qed
  with assms(1) c show ?thesis unfolding dfs_inv_def by blast
qed

lemma dfs_fresh:
  assumes "adj_ok a" "dfs_inv a s (cur # stack) its vis seen" "its ! cur = nbr # rest"
    and "ekey cur nbr \<notin> set vis" "nbr \<notin> set (cur # stack)"
  shows "nbr \<notin> set seen" "nbr < length a"
proof -
  note cur = dfs_inv_cur[OF assms(2)]
  from assms(2) have i1: "\<forall>w < length a. \<exists>c. a ! w = c @ its ! w \<and> (\<forall>x \<in> set c. ekey w x \<in> set vis)"
    and i2: "\<forall>w \<in> set seen. w \<notin> set (cur # stack) \<longrightarrow> its ! w = []"
    and sn: "\<forall>w \<in> set seen. w < length a"
    by (simp_all add: dfs_inv_def)
  from i1 cur(1) assms(3) have nb: "nbr \<in> set (a ! cur)" by fastforce
  with assms(1) cur(1) have n: "nbr < length a" and bk: "cur \<in> set (a ! nbr)"
    unfolding adj_ok_iff by blast+
  from n show "nbr < length a" .
  show "nbr \<notin> set seen"
  proof
    assume "nbr \<in> set seen"
    with i2 assms(5) have "its ! nbr = []" by blast
    with i1 n obtain c where "a ! nbr = c" "\<forall>x \<in> set c. ekey nbr x \<in> set vis" by fastforce
    with bk have "ekey nbr cur \<in> set vis" by blast
    with assms(4) show False by (simp add: ekey_commute[of nbr cur])
  qed
qed

lemma dfs_inv_push:
  assumes "dfs_inv a s (cur # stack) its vis seen" "its ! cur = nbr # rest"
    and "nbr \<notin> set seen" "nbr < length a"
  shows "dfs_inv a s (nbr # cur # stack) (its[cur := rest]) (ekey cur nbr # vis) (nbr # seen)"
proof -
  note cur = dfs_inv_cur[OF assms(1)]
  have sub: "set vis \<subseteq> set (ekey cur nbr # vis)" by auto
  have mem: "ekey cur nbr \<in> set (ekey cur nbr # vis)" by simp
  note c = dfs_inv_consume[OF assms(1) cur(1) assms(2) sub mem]
  from assms(1) have d: "distinct (cur # stack)" and ss: "set (cur # stack) \<subseteq> set seen"
    and sn: "\<forall>w \<in> set seen. w < length a"
    and i2: "\<forall>w \<in> set seen. w \<notin> set (cur # stack) \<longrightarrow> its ! w = []"
    and ds: "distinct seen" and ln: "length seen = Suc (length vis)" and s: "s \<in> set seen"
    and i5: "\<forall>k \<in> set vis. \<exists>u v. k = ekey u v \<and> u \<in> set seen \<and> v \<in> set seen"
    by (simp_all add: dfs_inv_def)
  from assms(3) ss have nst: "nbr \<notin> set (cur # stack)" by blast
  have 3: "distinct (nbr # cur # stack)" using d nst by simp
  have 4: "set (nbr # cur # stack) \<subseteq> set (nbr # seen)" using ss by auto
  have 5: "\<forall>w \<in> set (nbr # seen). w < length a" using sn assms(4) by simp
  have 6: "\<forall>w \<in> set (nbr # seen). w \<notin> set (nbr # cur # stack) \<longrightarrow> its[cur := rest] ! w = []"
  proof (intro ballI impI)
    fix w assume "w \<in> set (nbr # seen)" "w \<notin> set (nbr # cur # stack)"
    then have "w \<in> set seen" "w \<notin> set (cur # stack)" by auto
    with i2 show "its[cur := rest] ! w = []" by auto
  qed
  have 7: "distinct (nbr # seen)" using ds assms(3) by simp
  have 8: "length (nbr # seen) = Suc (length (ekey cur nbr # vis))" using ln by simp
  have 9: "s \<in> set (nbr # seen)" using s by simp
  have 10: "\<forall>k \<in> set (ekey cur nbr # vis).
              \<exists>u v. k = ekey u v \<and> u \<in> set (nbr # seen) \<and> v \<in> set (nbr # seen)"
  proof
    fix k assume "k \<in> set (ekey cur nbr # vis)"
    then consider "k = ekey cur nbr" | "k \<in> set vis" by auto
    then show "\<exists>u v. k = ekey u v \<and> u \<in> set (nbr # seen) \<and> v \<in> set (nbr # seen)"
    proof cases
      case 1
      with cur(3) show ?thesis by (intro exI[of _ cur] exI[of _ nbr]) simp
    next
      case 2
      with i5 obtain u v where "k = ekey u v" "u \<in> set seen" "v \<in> set seen" by blast
      then show ?thesis by (intro exI[of _ u] exI[of _ v]) simp
    qed
  qed
  from c 3 4 5 6 7 8 9 10 show ?thesis unfolding dfs_inv_def by blast
qed

lemma scan_rel_pop:
  assumes "scan_rel s (cur # stack) es active ph"
  shows "scan_rel s stack es active ph"
proof -
  from assms obtain zs where "path_nodes s es = rev (cur # stack) @ zs"
    by (auto simp: scan_rel_def)
  then have "path_nodes s es = rev stack @ (cur # zs)" by simp
  then have "\<exists>zs. path_nodes s es = rev stack @ zs" by blast
  with assms show ?thesis by (simp add: scan_rel_def)
qed

lemma scan_rel_push:
  assumes "path_nodes s es1 = rev (cur # stack)" "set active1 = set (cur # stack)"
    and "nbr \<notin> set (cur # stack)" "distinct (cur # stack)"
  shows "scan_rel s (nbr # cur # stack) ((cur, nbr) # es1) (nbr # active1) (Some nbr)"
proof -
  have p: "path_nodes s ((cur, nbr) # es1) = rev (nbr # cur # stack)"
    using assms(1) by (simp add: path_nodes_Cons)
  then have "\<exists>zs. path_nodes s ((cur, nbr) # es1) = rev (nbr # cur # stack) @ zs" by simp
  moreover have "distinct (path_nodes s ((cur, nbr) # es1))"
    unfolding p using assms(3,4) by simp
  moreover have "set (nbr # active1) = set (path_nodes s ((cur, nbr) # es1))"
    unfolding p using assms(2) by auto
  ultimately show ?thesis by (simp add: scan_rel_def)
qed

declare edge_dfs.simps [simp del]

lemma find_cycle_scan_step:
  "find_cycle_scan [] ((cur, nbr) # out) es seen active ph =
     (case (case ph of None \<Rightarrow> (es, active)
            | Some p \<Rightarrow> if cur \<noteq> p then pop_edges cur es active else (es, active)) of
        (es1, active1) \<Rightarrow>
          if nbr \<in> set active1 then Inl (rev ((cur, nbr) # es1), nbr)
          else find_cycle_scan [] out ((cur, nbr) # es1) (nbr # seen) (nbr # active1) (Some nbr))"
  by (cases ph) (simp_all split: prod.splits)

lemma dfs_scan_no_cycle:
  assumes "adj_ok a"
  shows "dfs_inv a s st its vis seen \<Longrightarrow> scan_rel s st es active ph \<Longrightarrow>
         find_cycle_scan [] (edge_dfs st its vis) es seen active ph = Inr seen' \<Longrightarrow>
         \<exists>its' vis'. dfs_inv a s [] its' vis' seen'"
proof (induction st its vis arbitrary: es seen active ph rule: edge_dfs.induct)
  case (1 its vis)
  then show ?case by (auto simp: edge_dfs.simps)
next
  case (2 cur stack its vis)
  note inv = "2.prems"(1) and rel = "2.prems"(2) and run = "2.prems"(3)
  note cur = dfs_inv_cur[OF inv]
  show ?case
  proof (cases "its ! cur")
    case Nil
    with cur(2) have e: "edge_dfs (cur # stack) its vis = edge_dfs stack its vis"
      by (subst edge_dfs.simps) simp
    from "2.IH"(1)[OF cur(2) Nil dfs_inv_pop[OF inv Nil] scan_rel_pop[OF rel] run[unfolded e]]
    show ?thesis .
  next
    case (Cons nbr rest)
    show ?thesis
    proof (cases "ekey cur nbr \<in> set vis")
      case True
      with cur(2) Cons have e: "edge_dfs (cur # stack) its vis =
          edge_dfs (cur # stack) (its[cur := rest]) vis"
        by (subst edge_dfs.simps) simp
      from "2.IH"(2)[OF cur(2) Cons True dfs_inv_skip[OF inv Cons True] rel run[unfolded e]]
      show ?thesis .
    next
      case False
      with cur(2) Cons have e: "edge_dfs (cur # stack) its vis =
          (cur, nbr) # edge_dfs (nbr # cur # stack) (its[cur := rest]) (ekey cur nbr # vis)"
        by (subst edge_dfs.simps) simp
      obtain es1 active1 where pop:
        "(case ph of None \<Rightarrow> (es, active)
          | Some p \<Rightarrow> if cur \<noteq> p then pop_edges cur es active else (es, active)) = (es1, active1)"
        by (cases "case ph of None \<Rightarrow> (es, active)
          | Some p \<Rightarrow> if cur \<noteq> p then pop_edges cur es active else (es, active)") blast
      note sp = scan_pop[OF rel pop]
      have "(if nbr \<in> set active1 then Inl (rev ((cur, nbr) # es1), nbr)
             else find_cycle_scan [] (edge_dfs (nbr # cur # stack) (its[cur := rest])
                     (ekey cur nbr # vis)) ((cur, nbr) # es1) (nbr # seen) (nbr # active1)
                     (Some nbr)) = Inr seen'"
        using run unfolding e find_cycle_scan_step pop by simp
      then have nin: "nbr \<notin> set active1"
        and run': "find_cycle_scan [] (edge_dfs (nbr # cur # stack) (its[cur := rest])
                     (ekey cur nbr # vis)) ((cur, nbr) # es1) (nbr # seen) (nbr # active1)
                     (Some nbr) = Inr seen'"
        by (auto split: if_splits)
      from nin sp have nst: "nbr \<notin> set (cur # stack)" by simp
      note fr = dfs_fresh[OF assms inv Cons False nst]
      from inv have d: "distinct (cur # stack)" by (simp add: dfs_inv_def)
      from "2.IH"(3)[OF cur(2) Cons False dfs_inv_push[OF inv Cons fr]
          scan_rel_push[OF conjunct1[OF sp] conjunct2[OF sp] nst d] run']
      show ?thesis .
    qed
  qed
qed

lemma no_cycle_edge_bound:
  assumes "graph_ok g" "connected g" "dfs_inv (adj g) s [] its vis seen"
  shows "number_of_edges g < length (adj g)"
proof -
  let ?a = "adj g"
  from assms(3) have l: "length its = length ?a"
    and i1: "\<forall>w < length ?a. \<exists>c. ?a ! w = c @ its ! w \<and> (\<forall>x \<in> set c. ekey w x \<in> set vis)"
    and sn: "\<forall>w \<in> set seen. w < length ?a"
    and i2: "\<forall>w \<in> set seen. its ! w = []"
    and ds: "distinct seen" and ln: "length seen = Suc (length vis)" and s: "s \<in> set seen"
    and i5: "\<forall>k \<in> set vis. \<exists>u v. k = ekey u v \<and> u \<in> set seen \<and> v \<in> set seen"
    by (simp_all add: dfs_inv_def)
  have keys: "ekey w x \<in> set vis" if "w \<in> set seen" "x \<in> set (?a ! w)" for w x
  proof -
    from that(1) sn i2 have "w < length ?a" "its ! w = []" by blast+
    with i1 obtain c where "?a ! w = c" "\<forall>x \<in> set c. ekey w x \<in> set vis" by fastforce
    with that(2) show ?thesis by blast
  qed
  have closed: "x \<in> set seen" if "w \<in> set seen" "has_edge g w x" for w x
  proof -
    from that have "ekey w x \<in> set vis" using keys by (simp add: has_edge_def)
    with i5 obtain u v where "ekey w x = ekey u v" "u \<in> set seen" "v \<in> set seen" by blast
    with ekey_eq[of w x u v] show ?thesis by blast
  qed
  have reach: "y \<in> set seen" if "(s, y) \<in> (edge_rel g)\<^sup>*" for y
    using that
  proof (induction rule: rtrancl_induct)
    case base
    show ?case by (rule s)
  next
    case (step y z)
    then have "has_edge g y z" by (simp add: edge_rel_def)
    with step.IH closed show ?case by blast
  qed
  from s sn have sl: "s < length ?a" by blast
  have all: "y \<in> set seen" if "y < length ?a" for y
    using assms(2) sl that reach by (simp add: connected_def)
  have "set (edges g) \<subseteq> set vis"
  proof
    fix p assume p: "p \<in> set (edges g)"
    obtain u v where uv: "p = (u, v)" by (cases p)
    with p have "u < length ?a" "v \<in> set (?a ! u)" "u \<le> v" by (simp_all add: edges_set)
    with keys[OF all] have "ekey u v \<in> set vis" by blast
    with \<open>u \<le> v\<close> uv show "p \<in> set vis" by (simp add: ekey_le)
  qed
  then have "card (set (edges g)) \<le> card (set vis)" by (simp add: card_mono)
  also have "\<dots> \<le> length vis" by (rule card_length)
  finally have e: "number_of_edges g \<le> length vis"
    using number_of_edges_card[OF assms(1)] by simp
  have "set seen \<subseteq> {..<length ?a}" using sn by auto
  then have "card (set seen) \<le> card {..<length ?a}" by (intro card_mono) simp_all
  with ds have "length seen \<le> length ?a" by (simp add: distinct_card)
  with ln e show ?thesis by simp
qed

lemma dfs_inv_init:
  assumes "s < length a"
  shows "dfs_inv a s [s] a [] [s]"
proof -
  have "\<forall>w < length a. \<exists>c. a ! w = c @ a ! w \<and> (\<forall>x \<in> set c. ekey w x \<in> set [])"
  proof (intro allI impI)
    fix w
    have "a ! w = [] @ a ! w \<and> (\<forall>x \<in> set []. ekey w x \<in> set [])" by simp
    then show "\<exists>c. a ! w = c @ a ! w \<and> (\<forall>x \<in> set c. ekey w x \<in> set [])" by blast
  qed
  with assms show ?thesis by (simp add: dfs_inv_def)
qed

lemma scan_rel_init: "scan_rel s [s] [] [s] None"
  by (simp add: scan_rel_def path_nodes_def)

lemma find_cycle_found:
  assumes "graph_ok g" "connected g" "length (adj g) \<le> number_of_edges g"
  shows "find_cycle g \<noteq> None"
proof -
  from assms(2) have n: "0 < length (adj g)" by (simp add: connected_def)
  then have u: "[0..<length (adj g)] = 0 # [1..<length (adj g)]"
    by (simp add: upt_conv_Cons)
  have "\<exists>found. find_cycle_scan [] (edge_dfs [0] (adj g) []) [] [0] [0] None = Inl found"
  proof (cases "find_cycle_scan [] (edge_dfs [0] (adj g) []) [] [0] [0] None")
    case (Inl found)
    then show ?thesis by blast
  next
    case (Inr seen')
    from assms(1) have "adj_ok (adj g)" by (simp add: graph_ok_def)
    from dfs_scan_no_cycle[OF this dfs_inv_init[OF n] scan_rel_init Inr]
    obtain its' vis' where "dfs_inv (adj g) 0 [] its' vis' seen'" by blast
    from no_cycle_edge_bound[OF assms(1,2) this] assms(3) show ?thesis by simp
  qed
  then obtain found where "find_cycle_scan [] (edge_dfs [0] (adj g) []) [] [0] [0] None = Inl found"
    by blast
  then have "find_cycle_from g [0..<length (adj g)] [] = Some found"
    unfolding u by simp
  then show ?thesis by (cases found) (simp add: find_cycle_def)
qed

section \<open>The number of fundamental cycles and of rows\<close>

lemma square_with_edge: "square m \<Longrightarrow> square (with_edge m e)"
  by (simp add: with_edge_def Let_def square_update)

lemma nonzero_set:
  "(u, v) \<in> set (nonzero m) \<longleftrightarrow> u < length m \<and> v < length (m ! u) \<and> m ! u ! v \<noteq> 0"
  by (auto simp: nonzero_def)

lemma from_pandas_adjacency_length [simp]:
  "length (adj (from_pandas_adjacency m)) = length m"
  by (simp add: from_pandas_adjacency_def)

lemma from_pandas_adjacency_has_edge:
  assumes "square m"
  shows "has_edge (from_pandas_adjacency m) u v \<longleftrightarrow>
         u < length m \<and> v < length m \<and> (m ! u ! v \<noteq> 0 \<or> m ! v ! u \<noteq> 0)"
proof -
  have "has_edge (from_pandas_adjacency m) u v \<longleftrightarrow>
        u < length m \<and> ((u, v) \<in> set (nonzero m) \<or> (v, u) \<in> set (nonzero m))"
    using nonzero_in_range[OF assms]
    by (auto simp: has_edge_def from_pandas_adjacency_def fold_add_edge_set)
  also have "\<dots> \<longleftrightarrow> u < length m \<and> v < length m \<and> (m ! u ! v \<noteq> 0 \<or> m ! v ! u \<noteq> 0)"
    using square_nth[OF assms] by (auto simp: nonzero_set)
  finally show ?thesis .
qed

lemma has_edge_bounds:
  assumes "graph_ok g" "has_edge g u v"
  shows "u < length (adj g)" "v < length (adj g)"
  using assms graph_okD(1)[OF assms(1), of u v] by (simp_all add: has_edge_def)

lemma trial_graph_has_edge:
  assumes "graph_ok t" "fst e < length (adj t)" "snd e < length (adj t)"
  shows "has_edge (from_pandas_adjacency (with_edge (to_numpy_array t) e)) u v \<longleftrightarrow>
         has_edge t u v \<or> (u, v) = e \<or> (v, u) = e"
proof -
  let ?m = "to_numpy_array t"
  let ?n = "length (adj t)"
  have sq: "square ?m" by (rule to_numpy_array_square)
  have cell: "with_edge ?m e ! r ! c \<noteq> 0 \<longleftrightarrow> (r, c) = e \<or> (c, r) = e \<or> has_edge t r c"
    if "r < ?n" "c < ?n" for r c
    using with_edge_cell[OF sq, of e r c] assms(2,3) that to_numpy_array_nth(3)[OF that]
    by auto
  have "has_edge (from_pandas_adjacency (with_edge ?m e)) u v \<longleftrightarrow>
        u < ?n \<and> v < ?n \<and> (with_edge ?m e ! u ! v \<noteq> 0 \<or> with_edge ?m e ! v ! u \<noteq> 0)"
    using from_pandas_adjacency_has_edge[OF square_with_edge[OF sq], of e u v] by simp
  also have "\<dots> \<longleftrightarrow> u < ?n \<and> v < ?n \<and> (has_edge t u v \<or> has_edge t v u \<or> (u, v) = e \<or> (v, u) = e)"
    using cell by blast
  also have "\<dots> \<longleftrightarrow> has_edge t u v \<or> (u, v) = e \<or> (v, u) = e"
    using has_edge_bounds[OF assms(1)] graph_ok_has_edge_sym[OF assms(1)] assms(2,3)
    by (cases e) auto
  finally show ?thesis .
qed

lemma trial_graph_cycle:
  assumes "graph_ok t" "connected t" "Suc (number_of_edges t) = length (adj t)"
    and "fst e < length (adj t)" "snd e < length (adj t)" "fst e \<le> snd e"
    and "e \<notin> set (edges t)"
  shows "find_cycle (from_pandas_adjacency (with_edge (to_numpy_array t) e)) \<noteq> None"
proof -
  let ?g = "from_pandas_adjacency (with_edge (to_numpy_array t) e)"
  note he = trial_graph_has_edge[OF assms(1,4,5)]
  have ok: "graph_ok ?g"
    by (rule from_pandas_adjacency_ok[OF square_with_edge[OF to_numpy_array_square]])
  have len: "length (adj ?g) = length (adj t)" by simp
  have "edge_rel t \<subseteq> edge_rel ?g" using he by (auto simp: edge_rel_def)
  from connected_mono[OF this len[symmetric] assms(2)] have con: "connected ?g" .
  have "set (edges ?g) = insert e (set (edges t))"
  proof -
    have "p \<in> set (edges ?g) \<longleftrightarrow> p \<in> insert e (set (edges t))" for p
    proof -
      obtain u v where p: "p = (u, v)" by (cases p)
      have "(u, v) \<in> set (edges ?g) \<longleftrightarrow> has_edge ?g u v \<and> u \<le> v"
        by (auto simp: edges_set has_edge_def)
      also have "\<dots> \<longleftrightarrow> (has_edge t u v \<or> (u, v) = e \<or> (v, u) = e) \<and> u \<le> v"
        using he by simp
      also have "\<dots> \<longleftrightarrow> (has_edge t u v \<and> u \<le> v) \<or> (u, v) = e"
        using assms(6) by (cases e) auto
      also have "\<dots> \<longleftrightarrow> (u, v) \<in> set (edges t) \<or> (u, v) = e"
        by (auto simp: edges_set has_edge_def)
      finally show ?thesis using p by auto
    qed
    then show ?thesis by blast
  qed
  then have "card (set (edges ?g)) = Suc (card (set (edges t)))"
    using assms(7) by simp
  with number_of_edges_card[OF ok] number_of_edges_card[OF assms(1)] assms(3)
  have "length (adj ?g) \<le> number_of_edges ?g" by simp
  from find_cycle_found[OF ok con this] show ?thesis .
qed

lemma find_fundamental_cycles_length:
  "\<forall>g \<in> set gl. find_cycle g \<noteq> None \<Longrightarrow> length (find_fundamental_cycles gl) = length gl"
  by (induction gl) (auto split: option.splits)

lemma fundamental_cycles_count:
  assumes "graph_ok kg" "connected kg"
  shows "\<exists>fcl. fundamental_cycles kg = Inr fcl \<and>
           length fcl = length (Eliminated_Edges (to_numpy_array kg)
                                  (to_numpy_array (minimum_spanning_tree kg)))"
proof -
  let ?t = "minimum_spanning_tree kg"
  let ?m = "to_numpy_array ?t"
  let ?el = "Eliminated_Edges (to_numpy_array kg) ?m"
  let ?gl = "map (\<lambda>e. from_pandas_adjacency (with_edge ?m e)) ?el"
  have t: "graph_ok ?t" by (rule minimum_spanning_tree_ok[OF assms(1)])
  have r: "in_range (length ?m) ?el" using eliminated_edges_in_range[OF assms(1)] by simp
  from graph_list_glam_slices[OF to_numpy_array_square r]
  have gl: "graph_list ?m ?el = Inr ?gl" by (simp add: graph_list_def comp_def)
  have "\<forall>g \<in> set ?gl. find_cycle g \<noteq> None"
  proof
    fix g assume "g \<in> set ?gl"
    then obtain e where e: "e \<in> set ?el" and g: "g = from_pandas_adjacency (with_edge ?m e)"
      by auto
    from e eliminated_edges_of_tree(1)[OF assms(1)]
    have m: "e \<in> set (edges kg)" "e \<notin> set (edges ?t)" by auto
    from m(1) edges_in_range[OF assms(1)] have b: "fst e < length (adj ?t)" "snd e < length (adj ?t)"
      by (auto simp: in_range_def list_all_iff)
    from m(1) have le: "fst e \<le> snd e" using edges_le[of "fst e" "snd e" kg] by simp
    from trial_graph_cycle[OF t spanning_tree_connected[OF assms] _ b le m(2)]
      spanning_tree_number_of_edges[OF assms]
    show "find_cycle g \<noteq> None" unfolding g by simp
  qed
  from find_fundamental_cycles_length[OF this]
  have "length (find_fundamental_cycles ?gl) = length ?el" by simp
  with gl show ?thesis by (simp add: fundamental_cycles_def Let_def)
qed

lemma kcl_rows_break:
  "kcl_rows kg nodes i A = Inr (i', A') \<Longrightarrow> i < number_of_edges kg \<Longrightarrow>
   number_of_edges kg \<le> i + length nodes \<Longrightarrow> i' = number_of_edges kg"
proof (induction nodes arbitrary: i A)
  case Nil
  then show ?case by simp
next
  case (Cons node nodes)
  from Cons.prems(1) obtain A1 where s1: "kcl_node kg i node (adj kg ! node) A = Inr A1"
    by (auto split: sum.splits)
  show ?case
  proof (cases "i + 1 = number_of_edges kg")
    case True
    with Cons.prems(1) s1 show ?thesis by simp
  next
    case False
    with Cons.prems(1) s1 have "kcl_rows kg nodes (i + 1) A1 = Inr (i', A')" by simp
    moreover from False Cons.prems(2) have "i + 1 < number_of_edges kg" by simp
    moreover from Cons.prems(3) have "number_of_edges kg \<le> i + 1 + length nodes" by simp
    ultimately show ?thesis by (rule Cons.IH)
  qed
qed

text \<open>
  Claim C2: for every connected graph with \<open>N\<close> nodes and \<open>E\<close> branches the spanning
  tree leaves out \<open>E - N + 1\<close> branches, \<^verbatim>\<open>Eliminated_Edges\<close> lists each of them once
  (one entry per unordered pair), every trial graph has a cycle that
  \<^verbatim>\<open>nx.find_cycle\<close> finds, so there are exactly \<open>E - N + 1\<close> fundamental cycles, one
  per eliminated branch. Whenever the system is assembled it has \<open>E\<close> rows, the first
  \<open>E - N + 1\<close> of them written by the cycle loop and the other \<open>N - 1\<close> by the node loop,
  which stops at its \<^verbatim>\<open>break\<close> with the row counter at \<open>E\<close>.
\<close>

theorem cycle_and_node_row_counts:
  assumes "graph_ok kg" "connected kg"
  shows "\<exists>fcl. fundamental_cycles kg = Inr fcl \<and>
           distinct (Eliminated_Edges (to_numpy_array kg)
                       (to_numpy_array (minimum_spanning_tree kg))) \<and>
           set (Eliminated_Edges (to_numpy_array kg)
                  (to_numpy_array (minimum_spanning_tree kg))) =
             set (edges kg) - set (edges (minimum_spanning_tree kg)) \<and>
           length fcl = length (Eliminated_Edges (to_numpy_array kg)
                                  (to_numpy_array (minimum_spanning_tree kg))) \<and>
           length fcl + length (adj kg) = number_of_edges kg + 1 \<and>
           (\<forall>i i' A B. kg_system kg = Inr (i, i', A, B) \<longrightarrow>
              i = length fcl \<and> length A = number_of_edges kg \<and>
              length B = number_of_edges kg \<and>
              length A - i = length (adj kg) - 1 \<and>
              (1 < length (adj kg) \<longrightarrow> i' = number_of_edges kg))"
proof -
  let ?E = "number_of_edges kg"
  let ?n = "length (adj kg)"
  from fundamental_cycles_count[OF assms] obtain fcl where
    f: "fundamental_cycles kg = Inr fcl" and
    l: "length fcl = length (Eliminated_Edges (to_numpy_array kg)
                              (to_numpy_array (minimum_spanning_tree kg)))" by blast
  from l eliminated_edges_count[OF assms] have c: "length fcl + ?n = ?E + 1" by simp
  have sys: "i = length fcl \<and> length A = ?E \<and> length B = ?E \<and>
             length A - i = ?n - 1 \<and> (1 < ?n \<longrightarrow> i' = ?E)"
    if k: "kg_system kg = Inr (i, i', A, B)" for i i' A B
  proof -
    from f k obtain A1 where
      s1: "kvl_rows kg fcl 0 (replicate ?E (replicate ?E 0)) (replicate ?E 0) = Inr (i, A1, B)" and
      s2: "kcl_rows kg [0..<?n] i A1 = Inr (i', A)"
      by (auto simp: kg_system_def Let_def split: sum.splits)
    note a = kvl_rows_Inr[OF assms(1) s1] and b = kcl_rows_Inr[OF s2]
    from a have i: "i = length fcl" by simp
    from a b have la: "length A = ?E" "length B = ?E" by simp_all
    have br: "i' = ?E" if "1 < ?n"
    proof -
      from that c i have "i < ?E" by simp
      moreover from c i have "?E \<le> i + length [0..<?n]" by simp
      ultimately show ?thesis using kcl_rows_break[OF s2] by blast
    qed
    from i la c br show ?thesis by auto
  qed
  from f l c sys eliminated_edges_of_tree[OF assms(1)] show ?thesis by blast
qed

lemma triangle_connected: "connected triangle"
proof -
  have e: "has_edge triangle 0 1" "has_edge triangle 1 0" "has_edge triangle 0 2"
    "has_edge triangle 2 0" "has_edge triangle 1 2" "has_edge triangle 2 1"
    by code_simp+
  have n: "length (adj triangle) = 3" by code_simp
  have "(u, v) \<in> (edge_rel triangle)\<^sup>*" if "u < 3" "v < 3" for u v
  proof (cases "u = v")
    case True
    then show ?thesis by simp
  next
    case False
    from that have "(u = 0 \<or> u = 1 \<or> u = 2) \<and> (v = 0 \<or> v = 1 \<or> v = 2)" by auto
    with False e have "has_edge triangle u v" by auto
    then show ?thesis by (simp add: edge_rel_def r_into_rtrancl)
  qed
  with n show ?thesis by (simp add: connected_def)
qed

theorem cycle_and_node_row_counts_witness:
  "graph_ok triangle \<and> connected triangle \<and>
   fundamental_cycles triangle = Inr [triangle_cycle] \<and>
   length [triangle_cycle] + length (adj triangle) = number_of_edges triangle + 1 \<and>
   kg_system triangle = Inr (1, 3, triangle_A, triangle_B) \<and>
   length triangle_A = number_of_edges triangle \<and>
   length triangle_A - 1 = length (adj triangle) - 1 \<and>
   3 = number_of_edges triangle"
proof -
  have a: "graph_ok triangle" by code_simp
  have b: "fundamental_cycles triangle = Inr [triangle_cycle]" by code_simp
  have c: "kg_system triangle = Inr (1, 3, triangle_A, triangle_B)" by code_simp
  have n: "1 < length (adj triangle)" by code_simp
  from cycle_and_node_row_counts[OF a triangle_connected] obtain fcl where
    f: "fundamental_cycles triangle = Inr fcl" and
    l: "length fcl + length (adj triangle) = number_of_edges triangle + 1" and
    s: "\<forall>i i' A B. kg_system triangle = Inr (i, i', A, B) \<longrightarrow>
              i = length fcl \<and> length A = number_of_edges triangle \<and>
              length B = number_of_edges triangle \<and>
              length A - i = length (adj triangle) - 1 \<and>
              (1 < length (adj triangle) \<longrightarrow> i' = number_of_edges triangle)"
    by blast
  from f b have fcl: "fcl = [triangle_cycle]" by simp
  from s c n have "length triangle_A = number_of_edges triangle \<and>
     length triangle_A - 1 = length (adj triangle) - 1 \<and> 3 = number_of_edges triangle"
    by blast
  with a b c l fcl triangle_connected show ?thesis by simp
qed

end
